theory Spec2Isabelle
  imports Main "HOL-Library.Word" "HOL-Library.Monad_Syntax"
begin

unbundle bit_operations_syntax

text \<open>
  A model of the endian_utils library (byte swapping, the bounded write and read
  buffers, the growable vector and the fixed-size byte array) and proofs of its
  specified properties. The definitions follow the C++ sources function by function;
  the properties are stated in the last sections, each under the identifier (C1 to
  C10) of the property it settles.
\<close>

section \<open>The platform: bytes, byte order and object representations\<close>

text \<open>
  The library is a set of C++ templates over the integral and enumeration types of
  1, 2, 4 and 8 bytes. A template parameter \<open>T\<close> is a type variable \<open>'a::len\<close>, a value
  of type \<open>T\<close> is an \<open>'a word\<close>, and \<open>sizeof(T)\<close> is \<open>LENGTH('a) div 8\<close>.
  \<open>std::endian\<close> has the two values used by the library; the platform's native order
  (\<open>std::endian::native\<close>) is a parameter \<open>native\<close> of every function that depends on it,
  and the template parameter \<open>Encoding\<close> is a parameter as well.
\<close>

type_synonym u8 = "8 word"

datatype endian = little | big

definition stream_endian :: endian where
  "stream_endian = little"

definition endian_mismatch :: "endian \<Rightarrow> bool" where
  "endian_mismatch native = (native \<noteq> stream_endian)"

definition sizeof :: "'a::len itself \<Rightarrow> nat" where
  "sizeof T = LENGTH('a) div 8"

text \<open>The concept \<open>SwapType\<close>: integral or enumeration types with unique object
  representations, which on every supported platform have 1, 2, 4 or 8 bytes.\<close>

definition SwapType :: "'a::len itself \<Rightarrow> bool" where
  "SwapType T = (LENGTH('a) = 8 \<or> LENGTH('a) = 16 \<or> LENGTH('a) = 32 \<or> LENGTH('a) = 64)"

section \<open>EndianConversions.h\<close>

text \<open>The generic (mask and shift) definitions of the three macros; the platform
  intrinsics selected on other branches of the preprocessor compute the same byte reversal.\<close>

definition MZ_BSWAP16 :: "16 word \<Rightarrow> 16 word" where
  "MZ_BSWAP16 x = (drop_bit 8 (x AND 0xFF00) OR push_bit 8 (x AND 0x00FF))"

definition MZ_BSWAP32 :: "32 word \<Rightarrow> 32 word" where
  "MZ_BSWAP32 x =
     (drop_bit 24 (x AND 0xFF000000) OR drop_bit 8 (x AND 0x00FF0000) OR
      push_bit 8 (x AND 0x0000FF00) OR push_bit 24 (x AND 0x000000FF))"

definition MZ_BSWAP64 :: "64 word \<Rightarrow> 64 word" where
  "MZ_BSWAP64 x =
     (drop_bit 56 (x AND 0xFF00000000000000) OR drop_bit 40 (x AND 0x00FF000000000000) OR
      drop_bit 24 (x AND 0x0000FF0000000000) OR drop_bit 8 (x AND 0x000000FF00000000) OR
      push_bit 8 (x AND 0x00000000FF000000) OR push_bit 24 (x AND 0x0000000000FF0000) OR
      push_bit 40 (x AND 0x000000000000FF00) OR push_bit 56 (x AND 0x00000000000000FF))"

text \<open>\<open>byteSwap\<close> for integral types: the chain of \<open>if constexpr (sizeof(T) == ...)\<close>;
  the casts to and from the unsigned type of the same size keep the bit pattern.\<close>

definition byteSwap :: "'a::len word \<Rightarrow> 'a word" where
  "byteSwap v =
     (if sizeof TYPE('a) = 1 then v
      else if sizeof TYPE('a) = 2 then ucast (MZ_BSWAP16 (ucast v))
      else if sizeof TYPE('a) = 4 then ucast (MZ_BSWAP32 (ucast v))
      else if sizeof TYPE('a) = 8 then ucast (MZ_BSWAP64 (ucast v))
      else v)"

text \<open>\<open>byteSwap\<close> for enumeration types. An enumeration value is represented by the
  value of its underlying type, of the same size; the two \<open>static_cast\<close>s between the
  enumeration and its underlying type keep the bits.\<close>

type_synonym 'a enum_value = "'a word"

definition to_underlying :: "'a::len enum_value \<Rightarrow> 'a word" where
  "to_underlying v = v"

definition from_underlying :: "'a::len word \<Rightarrow> 'a enum_value" where
  "from_underlying v = v"

definition byteSwap_enum :: "'a::len enum_value \<Rightarrow> 'a enum_value" where
  "byteSwap_enum v =
     (if sizeof TYPE('a) = 1 then v
      else from_underlying (byteSwap (to_underlying v)))"

section \<open>Memory\<close>

text \<open>
  A pointer is an offset into the byte array it points into, and that array is a
  \<open>u8 list\<close>. An access outside the array is undefined behaviour in C++; here it is
  the result \<open>None\<close>, so every function that touches memory returns an option.

  \<open>std::memcpy\<close> from an object into memory writes the object representation of the
  value, which is its bytes in native order; \<open>std::memcpy\<close> from memory into an object
  reads it back.
\<close>

fun bytes_le :: "nat \<Rightarrow> 'a::len word \<Rightarrow> u8 list" where
  "bytes_le 0 x = []"
| "bytes_le (Suc n) x = ucast x # bytes_le n (drop_bit 8 x)"

fun word_le :: "u8 list \<Rightarrow> 'a::len word" where
  "word_le [] = 0"
| "word_le (b # bs) = (ucast b OR push_bit 8 (word_le bs))"

definition object_bytes :: "endian \<Rightarrow> 'a::len word \<Rightarrow> u8 list" where
  "object_bytes native x =
     (if native = little then bytes_le (sizeof TYPE('a)) x
      else rev (bytes_le (sizeof TYPE('a)) x))"

definition object_value :: "endian \<Rightarrow> u8 list \<Rightarrow> 'a::len word" where
  "object_value native bs = (if native = little then word_le bs else word_le (rev bs))"

definition overwrite :: "u8 list \<Rightarrow> nat \<Rightarrow> u8 list \<Rightarrow> u8 list" where
  "overwrite mem p src = take p mem @ src @ drop (p + length src) mem"

definition bytes_at :: "u8 list \<Rightarrow> nat \<Rightarrow> nat \<Rightarrow> u8 list" where
  "bytes_at mem p n = take n (drop p mem)"

definition memcpy_store :: "u8 list \<Rightarrow> nat \<Rightarrow> u8 list \<Rightarrow> u8 list option" where
  "memcpy_store mem p src =
     (if p + length src \<le> length mem then Some (overwrite mem p src) else None)"

definition memcpy_load :: "u8 list \<Rightarrow> nat \<Rightarrow> nat \<Rightarrow> u8 list option" where
  "memcpy_load mem p n =
     (if p + n \<le> length mem then Some (bytes_at mem p n) else None)"

fun chunks :: "nat \<Rightarrow> nat \<Rightarrow> u8 list \<Rightarrow> u8 list list" where
  "chunks sz 0 bs = []"
| "chunks sz (Suc n) bs = take sz bs # chunks sz n (drop sz bs)"

section \<open>EndianConcepts.h: the four overloads of basicCopy\<close>

text \<open>\<open>typedPtr[i] = byteSwap(typedPtr[i])\<close>: load the object at the address, swap it,
  store it back.\<close>

definition swap_in_place :: "endian \<Rightarrow> 'a::len itself \<Rightarrow> u8 list \<Rightarrow> nat \<Rightarrow> u8 list option" where
  "swap_in_place native T mem p = do {
     bs \<leftarrow> memcpy_load mem p (sizeof TYPE('a));
     memcpy_store mem p (object_bytes native (byteSwap (object_value native bs :: 'a word)))
   }"

fun swap_span_in_place ::
  "endian \<Rightarrow> 'a::len itself \<Rightarrow> u8 list \<Rightarrow> nat \<Rightarrow> nat \<Rightarrow> u8 list option" where
  "swap_span_in_place native T mem p 0 = Some mem"
| "swap_span_in_place native T mem p (Suc n) = do {
     mem' \<leftarrow> swap_in_place native T mem p;
     swap_span_in_place native T mem' (p + sizeof T) n
   }"

text \<open>\<open>basicCopy<Encoding>(void* destination, T value)\<close>\<close>

definition basicCopy_put ::
  "endian \<Rightarrow> endian \<Rightarrow> u8 list \<Rightarrow> nat \<Rightarrow> 'a::len word \<Rightarrow> u8 list option" where
  "basicCopy_put native Encoding mem destination v = do {
     mem1 \<leftarrow> memcpy_store mem destination (object_bytes native v);
     if native \<noteq> Encoding then swap_in_place native TYPE('a) mem1 destination
     else Some mem1
   }"

text \<open>\<open>basicCopy<Encoding>(void* destination, const std::span<T, N>& source)\<close>\<close>

definition basicCopy_put_span ::
  "endian \<Rightarrow> endian \<Rightarrow> u8 list \<Rightarrow> nat \<Rightarrow> 'a::len word list \<Rightarrow> u8 list option" where
  "basicCopy_put_span native Encoding mem destination source = do {
     mem1 \<leftarrow> memcpy_store mem destination (concat (map (object_bytes native) source));
     if native \<noteq> Encoding \<and> sizeof TYPE('a) > 1
     then swap_span_in_place native TYPE('a) mem1 destination (length source)
     else Some mem1
   }"

text \<open>\<open>basicCopy<Encoding>(T& destination, const void* source)\<close>\<close>

definition basicCopy_get ::
  "endian \<Rightarrow> endian \<Rightarrow> u8 list \<Rightarrow> nat \<Rightarrow> 'a::len word option" where
  "basicCopy_get native Encoding mem source = do {
     bs \<leftarrow> memcpy_load mem source (sizeof TYPE('a));
     let destination = object_value native bs;
     Some (if native \<noteq> Encoding then byteSwap destination else destination)
   }"

text \<open>\<open>basicCopy<Encoding>(std::span<T, N> destination, const void* source)\<close>; the span
  that is passed gives the number of elements, its old contents are overwritten.\<close>

definition basicCopy_get_span ::
  "endian \<Rightarrow> endian \<Rightarrow> 'a::len word list \<Rightarrow> u8 list \<Rightarrow> nat \<Rightarrow> 'a word list option" where
  "basicCopy_get_span native Encoding destination mem source = do {
     bs \<leftarrow> memcpy_load mem source (sizeof TYPE('a) * length destination);
     let items = map (object_value native) (chunks (sizeof TYPE('a)) (length destination) bs);
     Some (if native \<noteq> Encoding \<and> sizeof TYPE('a) > 1 then map byteSwap items else items)
   }"

section \<open>EndianBasicBuffers.h\<close>

text \<open>
  \<open>BasicWriteBuffer\<close> and \<open>BasicReadBuffer\<close> have the same two fields, the pointers
  \<open>m_begin\<close> and \<open>m_end\<close> into memory that the caller owns. The record holds that
  memory as \<open>storage\<close> and the two pointers as offsets into it.
\<close>

record BasicBuffer =
  storage :: "u8 list"
  m_begin :: nat
  m_end :: nat

type_synonym std_string = "u8 list"

text \<open>\<open>empty()\<close> and \<open>size()\<close>; the pointer difference is converted to \<open>size_t\<close>,
  so it wraps around when \<open>m_end\<close> is before \<open>m_begin\<close>.\<close>

definition empty_buffer :: "BasicBuffer \<Rightarrow> bool" where
  "empty_buffer b = (m_begin b = m_end b)"

definition size_buffer :: "BasicBuffer \<Rightarrow> nat" where
  "size_buffer b =
     (if m_begin b \<le> m_end b then m_end b - m_begin b
      else 2 ^ 64 - (m_begin b - m_end b))"

subsection \<open>BasicWriteBuffer\<close>

definition unsafePushBack ::
  "endian \<Rightarrow> endian \<Rightarrow> BasicBuffer \<Rightarrow> 'a::len word \<Rightarrow> BasicBuffer option" where
  "unsafePushBack native Encoding b v = do {
     mem \<leftarrow> basicCopy_put native Encoding (storage b) (m_begin b) v;
     Some (b\<lparr>storage := mem, m_begin := m_begin b + sizeof TYPE('a)\<rparr>)
   }"

definition unsafePushBack_span ::
  "endian \<Rightarrow> endian \<Rightarrow> BasicBuffer \<Rightarrow> 'a::len word list \<Rightarrow> BasicBuffer option" where
  "unsafePushBack_span native Encoding b span = do {
     mem \<leftarrow> basicCopy_put_span native Encoding (storage b) (m_begin b) span;
     Some (b\<lparr>storage := mem, m_begin := m_begin b + sizeof TYPE('a) * length span\<rparr>)
   }"

definition calculateSerializedSize :: "std_string \<Rightarrow> nat" where
  "calculateSerializedSize str = length str + 8"

definition unsafePushBack_string ::
  "endian \<Rightarrow> endian \<Rightarrow> BasicBuffer \<Rightarrow> std_string \<Rightarrow> BasicBuffer option" where
  "unsafePushBack_string native Encoding b str = do {
     let size = (of_nat (length str) :: 32 word);
     b1 \<leftarrow> unsafePushBack native Encoding b size;
     b2 \<leftarrow> unsafePushBack_span native Encoding b1 str;
     unsafePushBack native Encoding b2 size
   }"

text \<open>A \<open>std::wstring\<close> is a list of \<open>wchar_t\<close>, whose size is the platform's:
  the type variable \<open>'w\<close> (2 bytes on Windows, 4 on Linux and macOS).\<close>

definition calculateSerializedSize_wstring :: "'w::len word list \<Rightarrow> nat" where
  "calculateSerializedSize_wstring wstr = length wstr * 2 + 8"

definition unsafePushBack_wstring ::
  "endian \<Rightarrow> endian \<Rightarrow> BasicBuffer \<Rightarrow> 'w::len word list \<Rightarrow> BasicBuffer option" where
  "unsafePushBack_wstring native Encoding b wstr = do {
     let size = (of_nat (length wstr) :: 32 word);
     b1 \<leftarrow> unsafePushBack native Encoding b size;
     b2 \<leftarrow> unsafePushBack_span native Encoding b1 wstr;
     unsafePushBack native Encoding b2 size
   }"

text \<open>The safe operations return \<open>true\<close> for failure.\<close>

definition pushBack ::
  "endian \<Rightarrow> endian \<Rightarrow> BasicBuffer \<Rightarrow> 'a::len word \<Rightarrow> (bool \<times> BasicBuffer) option" where
  "pushBack native Encoding b v =
     (if m_begin b + sizeof TYPE('a) \<le> m_end b
      then do { b' \<leftarrow> unsafePushBack native Encoding b v; Some (False, b') }
      else Some (True, b))"

definition pushBack_span ::
  "endian \<Rightarrow> endian \<Rightarrow> BasicBuffer \<Rightarrow> 'a::len word list \<Rightarrow> (bool \<times> BasicBuffer) option" where
  "pushBack_span native Encoding b span =
     (if m_begin b + sizeof TYPE('a) * length span \<le> m_end b
      then do { b' \<leftarrow> unsafePushBack_span native Encoding b span; Some (False, b') }
      else Some (True, b))"

definition pushBack_string ::
  "endian \<Rightarrow> endian \<Rightarrow> BasicBuffer \<Rightarrow> std_string \<Rightarrow> (bool \<times> BasicBuffer) option" where
  "pushBack_string native Encoding b str =
     (let requiredSize = calculateSerializedSize str in
      if m_begin b + requiredSize \<le> m_end b
      then do { b' \<leftarrow> unsafePushBack_string native Encoding b str; Some (False, b') }
      else Some (True, b))"

definition pushBack_wstring ::
  "endian \<Rightarrow> endian \<Rightarrow> BasicBuffer \<Rightarrow> 'w::len word list \<Rightarrow> (bool \<times> BasicBuffer) option" where
  "pushBack_wstring native Encoding b wstr =
     (let requiredSize = calculateSerializedSize_wstring wstr in
      if m_begin b + requiredSize \<le> m_end b
      then do { b' \<leftarrow> unsafePushBack_wstring native Encoding b wstr; Some (False, b') }
      else Some (True, b))"

subsection \<open>BasicReadBuffer\<close>

text \<open>The destination of a read is a reference parameter: the functions take its old
  value and return the new one.\<close>

definition unsafePopFront ::
  "endian \<Rightarrow> endian \<Rightarrow> BasicBuffer \<Rightarrow> ('a::len word \<times> BasicBuffer) option" where
  "unsafePopFront native Encoding b = do {
     v \<leftarrow> basicCopy_get native Encoding (storage b) (m_begin b);
     Some (v, b\<lparr>m_begin := m_begin b + sizeof TYPE('a)\<rparr>)
   }"

definition unsafePopFront_span ::
  "endian \<Rightarrow> endian \<Rightarrow> BasicBuffer \<Rightarrow> 'a::len word list
     \<Rightarrow> ('a word list \<times> BasicBuffer) option" where
  "unsafePopFront_span native Encoding b span = do {
     span' \<leftarrow> basicCopy_get_span native Encoding span (storage b) (m_begin b);
     Some (span', b\<lparr>m_begin := m_begin b + sizeof TYPE('a) * length span\<rparr>)
   }"

text \<open>\<open>m_end -= sizeof(T)\<close> below the start of the array is undefined behaviour.\<close>

definition unsafePopBack ::
  "endian \<Rightarrow> endian \<Rightarrow> BasicBuffer \<Rightarrow> ('a::len word \<times> BasicBuffer) option" where
  "unsafePopBack native Encoding b =
     (if sizeof TYPE('a) \<le> m_end b then do {
        let b' = b\<lparr>m_end := m_end b - sizeof TYPE('a)\<rparr>;
        v \<leftarrow> basicCopy_get native Encoding (storage b') (m_end b');
        Some (v, b')
      } else None)"

definition unsafePopBack_span ::
  "endian \<Rightarrow> endian \<Rightarrow> BasicBuffer \<Rightarrow> 'a::len word list
     \<Rightarrow> ('a word list \<times> BasicBuffer) option" where
  "unsafePopBack_span native Encoding b span =
     (if sizeof TYPE('a) * length span \<le> m_end b then do {
        let b' = b\<lparr>m_end := m_end b - sizeof TYPE('a) * length span\<rparr>;
        span' \<leftarrow> basicCopy_get_span native Encoding span (storage b') (m_end b');
        Some (span', b')
      } else None)"

definition popFront ::
  "endian \<Rightarrow> endian \<Rightarrow> BasicBuffer \<Rightarrow> 'a::len word
     \<Rightarrow> (bool \<times> 'a word \<times> BasicBuffer) option" where
  "popFront native Encoding b v =
     (if m_begin b + sizeof TYPE('a) \<le> m_end b
      then do { (v', b') \<leftarrow> unsafePopFront native Encoding b; Some (False, v', b') }
      else Some (True, v, b))"

definition popFront_span ::
  "endian \<Rightarrow> endian \<Rightarrow> BasicBuffer \<Rightarrow> 'a::len word list
     \<Rightarrow> (bool \<times> 'a word list \<times> BasicBuffer) option" where
  "popFront_span native Encoding b span =
     (if m_begin b + sizeof TYPE('a) * length span \<le> m_end b
      then do { (span', b') \<leftarrow> unsafePopFront_span native Encoding b span;
                Some (False, span', b') }
      else Some (True, span, b))"

definition popBack ::
  "endian \<Rightarrow> endian \<Rightarrow> BasicBuffer \<Rightarrow> 'a::len word
     \<Rightarrow> (bool \<times> 'a word \<times> BasicBuffer) option" where
  "popBack native Encoding b v =
     (if m_begin b + sizeof TYPE('a) \<le> m_end b
      then do { (v', b') \<leftarrow> unsafePopBack native Encoding b; Some (False, v', b') }
      else Some (True, v, b))"

definition popBack_span ::
  "endian \<Rightarrow> endian \<Rightarrow> BasicBuffer \<Rightarrow> 'a::len word list
     \<Rightarrow> (bool \<times> 'a word list \<times> BasicBuffer) option" where
  "popBack_span native Encoding b span =
     (if m_begin b + sizeof TYPE('a) * length span \<le> m_end b
      then do { (span', b') \<leftarrow> unsafePopBack_span native Encoding b span;
                Some (False, span', b') }
      else Some (True, span, b))"

text \<open>\<open>std::string::resize\<close>: cut, or extend with zero characters.\<close>

definition resize_string :: "std_string \<Rightarrow> nat \<Rightarrow> std_string" where
  "resize_string str n = take n str @ replicate (n - length str) 0"

definition popFront_string ::
  "endian \<Rightarrow> endian \<Rightarrow> BasicBuffer \<Rightarrow> std_string
     \<Rightarrow> (bool \<times> std_string \<times> BasicBuffer) option" where
  "popFront_string native Encoding b str =
     (let oldBegin = m_begin b in
      if m_begin b + 8 \<le> m_end b then do {
        (size :: 32 word, b1) \<leftarrow> unsafePopFront native Encoding b;
        if m_begin b1 + unat size + 4 \<le> m_end b1 then do {
          let str1 = resize_string str (unat size);
          (str2, b2) \<leftarrow> (if str1 \<noteq> [] then unsafePopFront_span native Encoding b1 str1
                         else Some (str1, b1));
          (sizeCheck :: 32 word, b3) \<leftarrow> unsafePopFront native Encoding b2;
          if size = sizeCheck then Some (False, str2, b3)
          else Some (True, [], b3\<lparr>m_begin := oldBegin\<rparr>)
        } else Some (True, [], b1\<lparr>m_begin := oldBegin\<rparr>)
      } else Some (True, [], b\<lparr>m_begin := oldBegin\<rparr>))"

definition popBack_string ::
  "endian \<Rightarrow> endian \<Rightarrow> BasicBuffer \<Rightarrow> std_string
     \<Rightarrow> (bool \<times> std_string \<times> BasicBuffer) option" where
  "popBack_string native Encoding b str =
     (let oldEnd = m_end b in
      if m_begin b + 8 \<le> m_end b then do {
        (size :: 32 word, b1) \<leftarrow> unsafePopBack native Encoding b;
        if m_begin b1 + unat size + 4 \<le> m_end b1 then do {
          let str1 = resize_string str (unat size);
          (str2, b2) \<leftarrow> (if str1 \<noteq> [] then unsafePopBack_span native Encoding b1 str1
                         else Some (str1, b1));
          (sizeCheck :: 32 word, b3) \<leftarrow> unsafePopBack native Encoding b2;
          if size = sizeCheck then Some (False, str2, b3)
          else Some (True, [], b3\<lparr>m_end := oldEnd\<rparr>)
        } else Some (True, [], b1\<lparr>m_end := oldEnd\<rparr>)
      } else Some (True, [], b\<lparr>m_end := oldEnd\<rparr>))"

subsection \<open>The wire format of a string\<close>

text \<open>The format the spec gives for a narrow string: the length as a 32-bit value in
  stream order, the raw content bytes, and the length again.\<close>

definition framed_string :: "endian \<Rightarrow> std_string \<Rightarrow> u8 list" where
  "framed_string Encoding str =
     object_bytes Encoding (of_nat (length str) :: 32 word) @ str
       @ object_bytes Encoding (of_nat (length str) :: 32 word)"

definition hello :: std_string where
  "hello = [0x68, 0x65, 0x6C, 0x6C, 0x6F]"

section \<open>EndianBasicVector.h and EndianVector.h\<close>

text \<open>
  \<open>std::vector<uint8_t>\<close>: its elements and the capacity it has allocated. A
  reallocation keeps the elements, and \<open>resize\<close> fills new elements with zero. The
  capacity after a growing \<open>resize\<close> is the implementation's choice; the least value the
  standard allows is taken.
\<close>

record std_vector =
  contents :: "u8 list"
  allocated :: nat

definition vector_reserve :: "std_vector \<Rightarrow> nat \<Rightarrow> std_vector" where
  "vector_reserve d n = d\<lparr>allocated := max (allocated d) n\<rparr>"

definition vector_resize :: "std_vector \<Rightarrow> nat \<Rightarrow> std_vector" where
  "vector_resize d n =
     \<lparr>contents = take n (contents d) @ replicate (n - length (contents d)) 0,
      allocated = max (allocated d) n\<rparr>"

record BasicVector =
  m_size :: nat
  m_data :: std_vector

text \<open>The default constructor.\<close>

definition BasicVector_new :: BasicVector where
  "BasicVector_new = \<lparr>m_size = 0, m_data = \<lparr>contents = [], allocated = 0\<rparr>\<rparr>"

definition Vector_size :: "BasicVector \<Rightarrow> nat" where
  "Vector_size v = m_size v"

definition Vector_capacity :: "BasicVector \<Rightarrow> nat" where
  "Vector_capacity v = allocated (m_data v)"

definition reserveExtra :: "BasicVector \<Rightarrow> nat \<Rightarrow> BasicVector" where
  "reserveExtra v extraSize =
     (let requiredSize = m_size v + extraSize in
      if length (contents (m_data v)) < requiredSize then
        (let d = (if extraSize > 1024
                  then vector_reserve (m_data v) (requiredSize + requiredSize div 2)
                  else m_data v)
         in v\<lparr>m_data := vector_resize d requiredSize\<rparr>)
      else v)"

text \<open>
  Modelled from the spec: \<open>basic_copy\<close>, which \<open>BasicVector\<close> calls to write a value, is
  not defined in the sources (EndianConcepts.h defines \<open>basicCopy\<close>). The spec says
  of the growable buffer that it composes the encode logic of the bounded buffer, so
  \<open>basic_copy\<close> is taken to be the overload of \<open>basicCopy\<close> with the same arguments.
\<close>

definition basic_copy ::
  "endian \<Rightarrow> endian \<Rightarrow> u8 list \<Rightarrow> nat \<Rightarrow> 'a::len word \<Rightarrow> u8 list option" where
  "basic_copy native Encoding mem destination v =
     basicCopy_put native Encoding mem destination v"

definition Vector_unsafePushBack ::
  "endian \<Rightarrow> endian \<Rightarrow> BasicVector \<Rightarrow> 'a::len word \<Rightarrow> BasicVector option" where
  "Vector_unsafePushBack native Encoding v x = do {
     mem \<leftarrow> basic_copy native Encoding (contents (m_data v)) (Vector_size v) x;
     Some (v\<lparr>m_data := (m_data v)\<lparr>contents := mem\<rparr>, m_size := m_size v + sizeof TYPE('a)\<rparr>)
   }"

definition Vector_pushBack ::
  "endian \<Rightarrow> endian \<Rightarrow> BasicVector \<Rightarrow> 'a::len word \<Rightarrow> BasicVector option" where
  "Vector_pushBack native Encoding v x =
     Vector_unsafePushBack native Encoding (reserveExtra v (sizeof TYPE('a))) x"

text \<open>\<open>Vector::error\<close>: \<open>BasicVector<stream_endian>::size() < size()\<close>, where \<open>Vector\<close>
  does not override \<open>size\<close>.\<close>

definition Vector_error :: "BasicVector \<Rightarrow> int" where
  "Vector_error v = (if Vector_size v < Vector_size v then 1 else 0)"

text \<open>The bytes a vector holds: the first \<open>size()\<close> bytes at \<open>data()\<close>.\<close>

definition Vector_bytes :: "BasicVector \<Rightarrow> u8 list" where
  "Vector_bytes v = take (Vector_size v) (contents (m_data v))"

subsection \<open>Sequences of values of several types\<close>

text \<open>A caller that writes values of different swappable types one after the other
  calls a different instance of the template each time; a value tagged with its type
  selects the instance.\<close>

datatype SwapValue = U8 "8 word" | U16 "16 word" | U32 "32 word" | U64 "64 word"

fun sizeof_value :: "SwapValue \<Rightarrow> nat" where
  "sizeof_value (U8 x) = sizeof TYPE(8)"
| "sizeof_value (U16 x) = sizeof TYPE(16)"
| "sizeof_value (U32 x) = sizeof TYPE(32)"
| "sizeof_value (U64 x) = sizeof TYPE(64)"

fun Vector_pushBack_value ::
  "endian \<Rightarrow> endian \<Rightarrow> BasicVector \<Rightarrow> SwapValue \<Rightarrow> BasicVector option" where
  "Vector_pushBack_value native Encoding v (U8 x) = Vector_pushBack native Encoding v x"
| "Vector_pushBack_value native Encoding v (U16 x) = Vector_pushBack native Encoding v x"
| "Vector_pushBack_value native Encoding v (U32 x) = Vector_pushBack native Encoding v x"
| "Vector_pushBack_value native Encoding v (U64 x) = Vector_pushBack native Encoding v x"

fun pushBack_value ::
  "endian \<Rightarrow> endian \<Rightarrow> BasicBuffer \<Rightarrow> SwapValue \<Rightarrow> (bool \<times> BasicBuffer) option" where
  "pushBack_value native Encoding b (U8 x) = pushBack native Encoding b x"
| "pushBack_value native Encoding b (U16 x) = pushBack native Encoding b x"
| "pushBack_value native Encoding b (U32 x) = pushBack native Encoding b x"
| "pushBack_value native Encoding b (U64 x) = pushBack native Encoding b x"

text \<open>Appending a sequence to a vector, one \<open>pushBack\<close> after the other.\<close>

fun Vector_pushBack_all ::
  "endian \<Rightarrow> endian \<Rightarrow> BasicVector \<Rightarrow> SwapValue list \<Rightarrow> BasicVector option" where
  "Vector_pushBack_all native Encoding v [] = Some v"
| "Vector_pushBack_all native Encoding v (x # xs) = do {
     v' \<leftarrow> Vector_pushBack_value native Encoding v x;
     Vector_pushBack_all native Encoding v' xs
   }"

text \<open>Writing a sequence into a write buffer with the safe \<open>pushBack\<close>, stopping at
  the first failure.\<close>

fun pushBack_all ::
  "endian \<Rightarrow> endian \<Rightarrow> BasicBuffer \<Rightarrow> SwapValue list \<Rightarrow> (bool \<times> BasicBuffer) option" where
  "pushBack_all native Encoding b [] = Some (False, b)"
| "pushBack_all native Encoding b (x # xs) = do {
     (failed, b') \<leftarrow> pushBack_value native Encoding b x;
     if failed then Some (True, b') else pushBack_all native Encoding b' xs
   }"

definition encoded_length :: "SwapValue list \<Rightarrow> nat" where
  "encoded_length xs = sum_list (map sizeof_value xs)"

text \<open>The bytes of a tagged value in the byte order \<open>Encoding\<close>.\<close>

fun encode_value :: "endian \<Rightarrow> SwapValue \<Rightarrow> u8 list" where
  "encode_value Encoding (U8 x) = object_bytes Encoding x"
| "encode_value Encoding (U16 x) = object_bytes Encoding x"
| "encode_value Encoding (U32 x) = object_bytes Encoding x"
| "encode_value Encoding (U64 x) = object_bytes Encoding x"

section \<open>EndianByteArray.h\<close>

text \<open>
  \<open>ByteArray<N>\<close> has the one field \<open>m_bytes\<close>, an array of \<open>N\<close> bytes with \<open>N > 0\<close>.
  The functions take \<open>N\<close> and the array and return the array they leave. A
  \<open>std::string\<close> is the list of its characters as bytes. Every index the functions
  use is below \<open>N\<close>: the loops stop when the index reaches \<open>N\<close>.
\<close>

definition HashPrime :: "64 word" where
  "HashPrime = 1099511628211"

definition HashInit :: "64 word" where
  "HashInit = 14695981039346656037"

definition computeNextHash :: "64 word \<Rightarrow> 64 word \<Rightarrow> 64 word" where
  "computeNextHash currentHash nextByte = (currentHash XOR nextByte) * HashPrime"

text \<open>The simple loop of \<open>computeHash\<close>: \<open>while (index < maxIndex)\<close>.\<close>

function computeHash_loop :: "u8 list \<Rightarrow> 64 word \<Rightarrow> nat \<Rightarrow> nat \<Rightarrow> 64 word" where
  "computeHash_loop m hash index maxIndex =
     (if index < maxIndex
      then computeHash_loop m (computeNextHash hash (ucast (m ! index))) (index + 1) maxIndex
      else hash)"
  by pat_completeness auto
termination
  by (relation "measure (\<lambda>(m, hash, index, maxIndex). maxIndex - index)") auto

declare computeHash_loop.simps [simp del]

text \<open>The unrolled loop: eight bytes in each round, up to \<open>bulkEnd\<close>.\<close>

function computeHash_bulk :: "u8 list \<Rightarrow> 64 word \<Rightarrow> nat \<Rightarrow> nat \<Rightarrow> 64 word \<times> nat" where
  "computeHash_bulk m hash index bulkEnd =
     (if index < bulkEnd
      then
        (let h1 = computeNextHash hash (ucast (m ! index));
             h2 = computeNextHash h1 (ucast (m ! (index + 1)));
             h3 = computeNextHash h2 (ucast (m ! (index + 2)));
             h4 = computeNextHash h3 (ucast (m ! (index + 3)));
             h5 = computeNextHash h4 (ucast (m ! (index + 4)));
             h6 = computeNextHash h5 (ucast (m ! (index + 5)));
             h7 = computeNextHash h6 (ucast (m ! (index + 6)));
             h8 = computeNextHash h7 (ucast (m ! (index + 7)))
         in computeHash_bulk m h8 (index + 8) bulkEnd)
      else (hash, index))"
  by pat_completeness auto
termination
  by (relation "measure (\<lambda>(m, hash, index, bulkEnd). bulkEnd - index)") auto

declare computeHash_bulk.simps [simp del]

text \<open>\<open>maxIndex & ~0x7ULL\<close> is \<open>maxIndex\<close> rounded down to a multiple of 8.\<close>

definition computeHash :: "u8 list \<Rightarrow> 64 word \<Rightarrow> nat \<Rightarrow> 64 word" where
  "computeHash m initialHash maxIndex =
     (if maxIndex \<le> 8 then computeHash_loop m initialHash 0 maxIndex
      else
        (let bulkEnd = maxIndex - maxIndex mod 8;
             (hash, index) = computeHash_bulk m initialHash 0 bulkEnd
         in computeHash_loop m hash index maxIndex))"

text \<open>The loop body of \<open>fillHead\<close>, over the characters still to be visited; it stops
  (\<open>break\<close>) when \<open>index\<close> reaches \<open>N\<close>.\<close>

fun fillHead_loop :: "nat \<Rightarrow> u8 list \<Rightarrow> nat \<Rightarrow> std_string \<Rightarrow> nat \<times> u8 list" where
  "fillHead_loop N m index [] = (index, m)"
| "fillHead_loop N m index (c # cs) =
     (if c \<noteq> 0 then
        (let m' = m[index := c]; index' = index + 1
         in if index' = N then (index', m') else fillHead_loop N m' index' cs)
      else fillHead_loop N m index cs)"

text \<open>\<open>fillHead(const std::string&)\<close>: all characters when the string is not longer
  than \<open>N\<close>, the characters \<open>str[0]\<close> to \<open>str[N-1]\<close> otherwise.\<close>

definition fillHead :: "nat \<Rightarrow> u8 list \<Rightarrow> std_string \<Rightarrow> nat \<times> u8 list" where
  "fillHead N m str =
     (if length str \<le> N then fillHead_loop N m 0 str
      else fillHead_loop N m 0 (take N str))"

text \<open>The padding loop of \<open>fillTail\<close>: \<open>while (filledBytes < N)\<close>.\<close>

function fillTail_loop :: "nat \<Rightarrow> u8 list \<Rightarrow> 64 word \<Rightarrow> nat \<Rightarrow> 64 word \<times> u8 list" where
  "fillTail_loop N m hashValue filledBytes =
     (if filledBytes < N
      then
        (let hashValue' = computeNextHash hashValue (ucast (m ! (filledBytes mod N)))
         in fillTail_loop N (m[filledBytes := ucast hashValue']) hashValue' (filledBytes + 1))
      else (hashValue, m))"
  by pat_completeness auto
termination
  by (relation "measure (\<lambda>(N, m, hashValue, filledBytes). N - filledBytes)") auto

declare fillTail_loop.simps [simp del]

definition fillTail :: "nat \<Rightarrow> u8 list \<Rightarrow> nat \<Rightarrow> 64 word \<times> u8 list" where
  "fillTail N m filledBytes =
     (if filledBytes = 0 then (0, replicate N 0)
      else
        (let hashValue = computeHash m HashInit filledBytes;
             (m1, filled1) = (if filledBytes < N then (m[filledBytes := 0], filledBytes + 1)
                              else (m, filledBytes))
         in fillTail_loop N m1 hashValue filled1))"

text \<open>\<open>fill(const std::string&)\<close> and the constructor from a string, which calls it on
  the new array.\<close>

definition fill :: "nat \<Rightarrow> std_string \<Rightarrow> 64 word \<times> u8 list" where
  "fill N str =
     (let m0 = replicate N 0;
          (filled, m1) = fillHead N m0 str
      in fillTail N m1 filled)"

definition ByteArray_of_string :: "nat \<Rightarrow> std_string \<Rightarrow> u8 list" where
  "ByteArray_of_string N str = snd (fill N str)"


text \<open>
  The padding loop as the spec describes it (and as the comment in \<open>fillTail\<close> says):
  the hash is updated with the byte written most recently, the one before the
  position that is filled next. It is defined to be compared with \<open>fillTail_loop\<close>.
\<close>

function fillTail_loop_as_specified ::
  "nat \<Rightarrow> u8 list \<Rightarrow> 64 word \<Rightarrow> nat \<Rightarrow> 64 word \<times> u8 list" where
  "fillTail_loop_as_specified N m hashValue filledBytes =
     (if filledBytes < N
      then
        (let hashValue' = computeNextHash hashValue (ucast (m ! (filledBytes - 1)))
         in fillTail_loop_as_specified N (m[filledBytes := ucast hashValue']) hashValue'
              (filledBytes + 1))
      else (hashValue, m))"
  by pat_completeness auto
termination
  by (relation "measure (\<lambda>(N, m, hashValue, filledBytes). N - filledBytes)") auto

declare fillTail_loop_as_specified.simps [simp del]

section \<open>Byte reversal, bit by bit\<close>

lemma byte_index_cases:
  assumes "(n::nat) < 8 * k"
  obtains j m where "n = 8 * j + m" "m < 8" "j < k"
proof -
  have "n = 8 * (n div 8) + n mod 8" "n mod 8 < 8" "n div 8 < k"
    using assms by (simp_all add: less_mult_imp_div_less mult.commute)
  then show ?thesis using that by blast
qed

lemma mask_consts_16:
  "(0xFF00 :: 16 word) = push_bit 8 (mask 8)" "(0xFF :: 16 word) = mask 8"
  by (simp_all add: mask_eq_exp_minus_1)

lemma mask_consts_32:
  "(0xFF000000 :: 32 word) = push_bit 24 (mask 8)" "(0xFF0000 :: 32 word) = push_bit 16 (mask 8)"
  "(0xFF00 :: 32 word) = push_bit 8 (mask 8)" "(0xFF :: 32 word) = mask 8"
  by (simp_all add: mask_eq_exp_minus_1)

lemma mask_consts_64:
  "(0xFF00000000000000 :: 64 word) = push_bit 56 (mask 8)"
  "(0x00FF000000000000 :: 64 word) = push_bit 48 (mask 8)"
  "(0x0000FF0000000000 :: 64 word) = push_bit 40 (mask 8)"
  "(0x000000FF00000000 :: 64 word) = push_bit 32 (mask 8)"
  "(0xFF000000 :: 64 word) = push_bit 24 (mask 8)" "(0xFF0000 :: 64 word) = push_bit 16 (mask 8)"
  "(0xFF00 :: 64 word) = push_bit 8 (mask 8)" "(0xFF :: 64 word) = mask 8"
  by (simp_all add: mask_eq_exp_minus_1)

lemma bit_MZ_BSWAP16:
  assumes "j < 2" "m < 8"
  shows "bit (MZ_BSWAP16 x) (8 * j + m) = bit x (8 * (1 - j) + m)"
proof -
  from assms(1) consider "j = 0" | "j = 1" by fastforce
  then show ?thesis
    unfolding MZ_BSWAP16_def mask_consts_16
    using assms(2) by cases (simp_all add: bit_simps)
qed

lemma bit_MZ_BSWAP32:
  assumes "j < 4" "m < 8"
  shows "bit (MZ_BSWAP32 x) (8 * j + m) = bit x (8 * (3 - j) + m)"
proof -
  from assms(1) consider "j = 0" | "j = 1" | "j = 2" | "j = 3" by fastforce
  then show ?thesis
    unfolding MZ_BSWAP32_def mask_consts_32
    using assms(2) by cases (simp_all add: bit_simps)
qed

lemma bit_MZ_BSWAP64:
  assumes "j < 8" "m < 8"
  shows "bit (MZ_BSWAP64 x) (8 * j + m) = bit x (8 * (7 - j) + m)"
proof -
  from assms(1) consider "j = 0" | "j = 1" | "j = 2" | "j = 3"
    | "j = 4" | "j = 5" | "j = 6" | "j = 7" by fastforce
  then show ?thesis
    unfolding MZ_BSWAP64_def mask_consts_64
    using assms(2) by cases (simp_all add: bit_simps)
qed

lemma SwapType_cases:
  assumes "SwapType TYPE('a::len)"
  obtains "LENGTH('a) = 8" "sizeof TYPE('a) = 1"
  | "LENGTH('a) = 16" "sizeof TYPE('a) = 2"
  | "LENGTH('a) = 32" "sizeof TYPE('a) = 4"
  | "LENGTH('a) = 64" "sizeof TYPE('a) = 8"
  using assms unfolding SwapType_def sizeof_def by fastforce

lemma SwapType_length: "SwapType TYPE('a::len) \<Longrightarrow> LENGTH('a) = 8 * sizeof TYPE('a)"
  by (erule SwapType_cases) simp_all

lemma SwapType_sizeof_pos: "SwapType TYPE('a::len) \<Longrightarrow> 0 < sizeof TYPE('a)"
  by (erule SwapType_cases) simp_all

text \<open>Bit \<open>m\<close> of byte \<open>j\<close> of the swapped value is bit \<open>m\<close> of the mirrored byte.\<close>

lemma bit_byteSwap:
  assumes "SwapType TYPE('a::len)" "j < sizeof TYPE('a)" "m < 8"
  shows "bit (byteSwap x :: 'a word) (8 * j + m) = bit x (8 * (sizeof TYPE('a) - 1 - j) + m)"
  using assms(1)
proof (cases rule: SwapType_cases)
  case 1
  with assms show ?thesis by (simp add: byteSwap_def)
next
  case 2
  with assms have "8 * j + m < 16" "8 * (1 - j) + m < 16" by simp_all
  with 2 assms show ?thesis
    by (simp add: byteSwap_def bit_simps bit_MZ_BSWAP16)
next
  case 3
  with assms have "8 * j + m < 32" "8 * (3 - j) + m < 32" by simp_all
  with 3 assms show ?thesis
    by (simp add: byteSwap_def bit_simps bit_MZ_BSWAP32)
next
  case 4
  with assms have "8 * j + m < 64" "8 * (7 - j) + m < 64" by simp_all
  with 4 assms show ?thesis
    by (simp add: byteSwap_def bit_simps bit_MZ_BSWAP64)
qed

lemma byteSwap_involutive:
  assumes "SwapType TYPE('a::len)"
  shows "byteSwap (byteSwap x) = (x :: 'a word)"
proof (rule bit_word_eqI)
  fix n assume "n < LENGTH('a)"
  then have "n < 8 * sizeof TYPE('a)" using SwapType_length [OF assms] by simp
  then obtain j m where n: "n = 8 * j + m" "m < 8" "j < sizeof TYPE('a)"
    by (rule byte_index_cases)
  have "sizeof TYPE('a) - 1 - j < sizeof TYPE('a)"
    "sizeof TYPE('a) - 1 - (sizeof TYPE('a) - 1 - j) = j"
    using n(3) by simp_all
  then show "bit (byteSwap (byteSwap x)) n = bit x n"
    using n by (simp add: bit_byteSwap [OF assms])
qed

lemma byteSwap_single_byte: "sizeof TYPE('a::len) = 1 \<Longrightarrow> byteSwap (x :: 'a word) = x"
  by (simp add: byteSwap_def)

text \<open>On the representation of enumeration values by their underlying values, the
  overload of \<open>byteSwap\<close> for enumerations is the one for integers; what is proved below
  of reads and writes of integers therefore holds of enumerations.\<close>

lemma byteSwap_enum_eq: "byteSwap_enum v = byteSwap v"
  by (simp add: byteSwap_enum_def byteSwap_def to_underlying_def from_underlying_def)

section \<open>Object representations\<close>

lemma length_bytes_le [simp]: "length (bytes_le n x) = n"
  by (induction n arbitrary: x) simp_all

lemma bytes_le_numeral:
  "bytes_le (numeral k) x = ucast x # bytes_le (pred_numeral k) (drop_bit 8 x)"
  by (simp add: numeral_eq_Suc)

lemma nth_bytes_le: "k < n \<Longrightarrow> bytes_le n x ! k = ucast (drop_bit (8 * k) x)"
proof (induction n arbitrary: x k)
  case 0
  then show ?case by simp
next
  case (Suc n)
  show ?case
  proof (cases k)
    case 0
    then show ?thesis by simp
  next
    case (Suc k')
    with Suc.prems have "k' < n" by simp
    then show ?thesis
      using Suc.IH [of k' "drop_bit 8 x"] Suc by (simp add: drop_bit_drop_bit add.commute)
  qed
qed

lemma bit_word_le:
  "bit (word_le bs :: 'a::len word) i =
     (i < LENGTH('a) \<and> i div 8 < length bs \<and> bit (bs ! (i div 8)) (i mod 8))"
proof (induction bs arbitrary: i)
  case Nil
  then show ?case by simp
next
  case (Cons b bs)
  show ?case
  proof (cases "i < 8")
    case True
    then show ?thesis by (auto simp add: bit_simps dest: bit_imp_le_length)
  next
    case False
    then have i: "i = (i - 8) + 8" by simp
    have "i div 8 = Suc ((i - 8) div 8)" "i mod 8 = (i - 8) mod 8"
      by (subst i, simp)+
    with False show ?thesis
      using Cons.IH [of "i - 8"] by (auto simp add: bit_simps dest: bit_imp_le_length)
  qed
qed

lemma word_le_bytes_le:
  assumes "LENGTH('a::len) \<le> 8 * n"
  shows "word_le (bytes_le n x) = (x :: 'a word)"
proof (rule bit_word_eqI)
  fix i assume i: "i < LENGTH('a)"
  with assms have "i div 8 < n" by (simp add: less_mult_imp_div_less mult.commute)
  then show "bit (word_le (bytes_le n x) :: 'a word) i = bit x i"
    using i by (simp add: bit_word_le nth_bytes_le bit_simps)
qed

lemma bytes_le_word_le:
  assumes "8 * length bs \<le> LENGTH('a::len)"
  shows "bytes_le (length bs) (word_le bs :: 'a word) = bs"
proof (rule nth_equalityI)
  show "length (bytes_le (length bs) (word_le bs :: 'a word)) = length bs" by simp
next
  fix k assume "k < length (bytes_le (length bs) (word_le bs :: 'a word))"
  then have k: "k < length bs" by simp
  have "ucast (drop_bit (8 * k) (word_le bs :: 'a word)) = bs ! k"
  proof (rule bit_word_eqI)
    fix m assume "m < LENGTH(8)"
    then have m: "m < 8" by simp
    with k assms have "8 * k + m < LENGTH('a)" by simp
    moreover have "(8 * k + m) div 8 = k" "(8 * k + m) mod 8 = m" using m by simp_all
    ultimately show "bit (ucast (drop_bit (8 * k) (word_le bs :: 'a word)) :: u8) m = bit (bs ! k) m"
      using m k by (simp add: bit_simps bit_word_le)
  qed
  then show "bytes_le (length bs) (word_le bs :: 'a word) ! k = bs ! k"
    using k by (simp add: nth_bytes_le)
qed

lemma bytes_le_byteSwap:
  assumes "SwapType TYPE('a::len)"
  shows "bytes_le (sizeof TYPE('a)) (byteSwap x :: 'a word) = rev (bytes_le (sizeof TYPE('a)) x)"
proof (rule nth_equalityI)
  show "length (bytes_le (sizeof TYPE('a)) (byteSwap x)) = length (rev (bytes_le (sizeof TYPE('a)) x))"
    by simp
next
  fix k assume "k < length (bytes_le (sizeof TYPE('a)) (byteSwap x))"
  then have k: "k < sizeof TYPE('a)" by simp
  then have k': "sizeof TYPE('a) - Suc k < sizeof TYPE('a)" by simp
  have "(ucast (drop_bit (8 * k) (byteSwap x)) :: u8)
      = ucast (drop_bit (8 * (sizeof TYPE('a) - Suc k)) x)"
  proof (rule bit_word_eqI)
    fix m assume "m < LENGTH(8)"
    then have m: "m < 8" by simp
    then show "bit (ucast (drop_bit (8 * k) (byteSwap x)) :: u8) m
        = bit (ucast (drop_bit (8 * (sizeof TYPE('a) - Suc k)) x) :: u8) m"
      using bit_byteSwap [OF assms k m, of x] by (simp add: bit_simps)
  qed
  then show "bytes_le (sizeof TYPE('a)) (byteSwap x) ! k = rev (bytes_le (sizeof TYPE('a)) x) ! k"
    using k k' by (simp add: nth_bytes_le rev_nth)
qed

lemma length_object_bytes [simp]:
  "length (object_bytes native (x :: 'a::len word)) = sizeof TYPE('a)"
  by (simp add: object_bytes_def)

text \<open>The bytes of the swapped value in one order are the bytes of the value in the
  other order.\<close>

lemma object_bytes_byteSwap:
  assumes "SwapType TYPE('a::len)" "native \<noteq> Encoding"
  shows "object_bytes native (byteSwap x :: 'a word) = object_bytes Encoding x"
  using assms(2) by (cases native; cases Encoding)
    (simp_all add: object_bytes_def bytes_le_byteSwap [OF assms(1)])

lemma object_value_object_bytes:
  assumes "SwapType TYPE('a::len)"
  shows "object_value native (object_bytes native x) = (x :: 'a word)"
  using SwapType_length [OF assms]
  by (simp add: object_value_def object_bytes_def word_le_bytes_le)

lemma object_bytes_object_value:
  assumes "SwapType TYPE('a::len)" "length bs = sizeof TYPE('a)"
  shows "object_bytes native (object_value native bs :: 'a word) = bs"
proof -
  have "bytes_le (length cs) (word_le cs :: 'a word) = cs" if "length cs = sizeof TYPE('a)" for cs
    using that SwapType_length [OF assms(1)] by (intro bytes_le_word_le) simp
  from this [of bs] this [of "rev bs"] assms(2) show ?thesis
    by (simp add: object_value_def object_bytes_def)
qed

lemma byteSwap_object_value:
  assumes "SwapType TYPE('a::len)" "length bs = sizeof TYPE('a)" "native \<noteq> Encoding"
  shows "byteSwap (object_value native bs :: 'a word) = object_value Encoding bs"
proof -
  define w :: "'a word" where "w = object_value Encoding bs"
  have "bs = object_bytes Encoding w"
    by (simp add: w_def object_bytes_object_value [OF assms(1,2)])
  also have "\<dots> = object_bytes native (byteSwap w)"
    by (simp add: object_bytes_byteSwap [OF assms(1,3)])
  finally have "object_value native bs = byteSwap w"
    by (simp add: object_value_object_bytes [OF assms(1)])
  then show ?thesis by (simp add: byteSwap_involutive [OF assms(1)] w_def)
qed

section \<open>Memory accesses and basicCopy\<close>

lemma mem_split:
  assumes "p + n \<le> length (mem :: u8 list)"
  shows "mem = take p mem @ bytes_at mem p n @ drop (p + n) mem"
    and "length (take p mem) = p" and "length (bytes_at mem p n) = n"
proof -
  have "take n (drop p mem) @ drop (p + n) mem = drop p mem"
    by (metis add.commute append_take_drop_id drop_drop)
  then show "mem = take p mem @ bytes_at mem p n @ drop (p + n) mem"
    by (simp add: bytes_at_def)
  show "length (take p mem) = p" "length (bytes_at mem p n) = n"
    using assms by (simp_all add: bytes_at_def)
qed

lemma length_overwrite:
  "p + length src \<le> length mem \<Longrightarrow> length (overwrite mem p src) = length mem"
  by (simp add: overwrite_def)

lemma bytes_at_overwrite_same:
  "p + length src \<le> length mem \<Longrightarrow> bytes_at (overwrite mem p src) p (length src) = src"
  by (simp add: overwrite_def bytes_at_def)

lemma overwrite_append:
  "length bs = length src \<Longrightarrow> overwrite (pre @ bs @ post) (length pre) src = pre @ src @ post"
  by (simp add: overwrite_def)

lemma memcpy_load_append:
  "length bs = n \<Longrightarrow> memcpy_load (pre @ bs @ post) (length pre) n = Some bs"
  by (simp add: memcpy_load_def bytes_at_def)

lemma memcpy_store_append:
  "length bs = length src \<Longrightarrow>
     memcpy_store (pre @ bs @ post) (length pre) src = Some (pre @ src @ post)"
  by (simp add: memcpy_store_def overwrite_def)

lemma memcpy_store_None: "length mem < p + length src \<Longrightarrow> memcpy_store mem p src = None"
  by (simp add: memcpy_store_def)

lemma swap_in_place_append:
  assumes "length bs = sizeof TYPE('a::len)"
  shows "swap_in_place native TYPE('a) (pre @ bs @ post) (length pre)
       = Some (pre @ object_bytes native (byteSwap (object_value native bs :: 'a word)) @ post)"
  using assms by (simp add: swap_in_place_def memcpy_load_append memcpy_store_append)

lemma swap_span_in_place_append:
  assumes "SwapType TYPE('a::len)"
  shows "swap_span_in_place native TYPE('a)
           (pre @ concat (map (object_bytes native) (xs :: 'a word list)) @ post)
           (length pre) (length xs)
       = Some (pre @ concat (map (\<lambda>x. object_bytes native (byteSwap x)) xs) @ post)"
proof (induction xs arbitrary: pre)
  case Nil
  then show ?case by simp
next
  case (Cons x xs)
  let ?rest = "concat (map (object_bytes native) xs)"
  have "swap_in_place native TYPE('a) (pre @ object_bytes native x @ (?rest @ post)) (length pre)
      = Some (pre @ object_bytes native (byteSwap x) @ (?rest @ post))"
    by (simp add: swap_in_place_append object_value_object_bytes [OF assms])
  moreover have "length pre + sizeof TYPE('a) = length (pre @ object_bytes native (byteSwap x))"
    by simp
  ultimately show ?case
    using Cons.IH [of "pre @ object_bytes native (byteSwap x)"]
    by (simp del: length_append)
qed

text \<open>Whatever the native order, a value is written as its bytes in the order
  \<open>Encoding\<close>, and is read from its bytes in the order \<open>Encoding\<close>.\<close>

lemma basicCopy_put_append:
  assumes "SwapType TYPE('a::len)" "length bs = sizeof TYPE('a)"
  shows "basicCopy_put native Encoding (pre @ bs @ post) (length pre) (x :: 'a word)
       = Some (pre @ object_bytes Encoding x @ post)"
  using assms
  by (simp add: basicCopy_put_def memcpy_store_append swap_in_place_append
      object_value_object_bytes object_bytes_byteSwap)

lemma object_bytes_single_byte:
  assumes "sizeof TYPE('a::len) = 1"
  shows "object_bytes native (x :: 'a word) = object_bytes Encoding x"
  using assms by (simp add: object_bytes_def)

lemma length_concat_object_bytes [simp]:
  "length (concat (map (object_bytes native) (xs :: 'a::len word list)))
     = sizeof TYPE('a) * length xs"
  by (induction xs) simp_all

lemma basicCopy_put_span_append:
  assumes "SwapType TYPE('a::len)" "length bs = sizeof TYPE('a) * length xs"
  shows "basicCopy_put_span native Encoding (pre @ bs @ post) (length pre) (xs :: 'a word list)
       = Some (pre @ concat (map (object_bytes Encoding) xs) @ post)"
proof (cases "native \<noteq> Encoding \<and> sizeof TYPE('a) > 1")
  case True
  then have "(\<lambda>x :: 'a word. object_bytes native (byteSwap x)) = object_bytes Encoding"
    by (auto simp add: object_bytes_byteSwap [OF assms(1)])
  with True assms(2) show ?thesis
    by (simp add: basicCopy_put_span_def memcpy_store_append
        swap_span_in_place_append [OF assms(1)])
next
  case False
  then consider "native = Encoding" | "sizeof TYPE('a) = 1"
    using SwapType_sizeof_pos [OF assms(1)] by fastforce
  then have "object_bytes native = (object_bytes Encoding :: 'a word \<Rightarrow> u8 list)"
    by cases (auto simp add: object_bytes_single_byte)
  with False assms(2) show ?thesis
    by (auto simp add: basicCopy_put_span_def memcpy_store_append)
qed

lemma basicCopy_get_append:
  assumes "SwapType TYPE('a::len)" "length bs = sizeof TYPE('a)"
  shows "basicCopy_get native Encoding (pre @ bs @ post) (length pre)
       = Some (object_value Encoding bs :: 'a word)"
  using assms
  by (cases "native = Encoding")
    (simp_all add: basicCopy_get_def memcpy_load_append byteSwap_object_value Let_def)

lemma chunks_lengths:
  "length bs = sz * n \<Longrightarrow> c \<in> set (chunks sz n bs) \<Longrightarrow> length c = sz"
proof (induction n arbitrary: bs)
  case 0
  then show ?case by simp
next
  case (Suc n)
  from Suc.prems(1) have "length (drop sz bs) = sz * n" "length (take sz bs) = sz" by simp_all
  with Suc.prems(2) Suc.IH [of "drop sz bs"] show ?case by auto
qed

lemma length_chunks [simp]: "length (chunks sz n bs) = n"
  by (induction n arbitrary: bs) simp_all

lemma chunks_concat_object_bytes:
  "chunks (sizeof TYPE('a::len)) (length xs)
     (concat (map (object_bytes Encoding) (xs :: 'a word list)))
   = map (object_bytes Encoding) xs"
  by (induction xs) simp_all

lemma basicCopy_get_span_append:
  assumes "SwapType TYPE('a::len)" "length bs = sizeof TYPE('a) * length dst"
  shows "basicCopy_get_span native Encoding (dst :: 'a word list) (pre @ bs @ post) (length pre)
       = Some (map (object_value Encoding) (chunks (sizeof TYPE('a)) (length dst) bs))"
proof -
  let ?cs = "chunks (sizeof TYPE('a)) (length dst) bs"
  have len: "length c = sizeof TYPE('a)" if "c \<in> set ?cs" for c
    using chunks_lengths [OF assms(2) that] .
  have "map (\<lambda>c. byteSwap (object_value native c :: 'a word)) ?cs = map (object_value Encoding) ?cs"
    if "native \<noteq> Encoding"
    using that len by (simp add: byteSwap_object_value [OF assms(1)])
  moreover have "map (object_value native) ?cs = (map (object_value Encoding) ?cs :: 'a word list)"
    if "sizeof TYPE('a) = 1"
  proof (rule map_cong [OF refl])
    fix c assume "c \<in> set ?cs"
    then have "length c = 1" using len that by simp
    then obtain b where "c = [b]" by (cases c) auto
    then show "object_value native c = (object_value Encoding c :: 'a word)"
      by (simp add: object_value_def)
  qed
  moreover have "sizeof TYPE('a) = 1 \<or> 1 < sizeof TYPE('a)"
    using SwapType_sizeof_pos [OF assms(1)] by fastforce
  ultimately show ?thesis
    using assms(2)
    by (auto simp add: basicCopy_get_span_def memcpy_load_append Let_def comp_def)
qed


subsection \<open>The same facts at an offset\<close>

lemma basicCopy_put_at:
  assumes "SwapType TYPE('a::len)" "p + sizeof TYPE('a) \<le> length mem"
  shows "basicCopy_put native Encoding mem p (x :: 'a word)
       = Some (overwrite mem p (object_bytes Encoding x))"
proof -
  note s = mem_split [OF assms(2)]
  have "basicCopy_put native Encoding
          (take p mem @ bytes_at mem p (sizeof TYPE('a)) @ drop (p + sizeof TYPE('a)) mem)
          (length (take p mem)) x
      = Some (take p mem @ object_bytes Encoding x @ drop (p + sizeof TYPE('a)) mem)"
    by (rule basicCopy_put_append [OF assms(1) s(3)])
  then show ?thesis using s(1,2) by (simp add: overwrite_def)
qed

lemma basicCopy_put_span_at:
  assumes "SwapType TYPE('a::len)" "p + sizeof TYPE('a) * length xs \<le> length mem"
  shows "basicCopy_put_span native Encoding mem p (xs :: 'a word list)
       = Some (overwrite mem p (concat (map (object_bytes Encoding) xs)))"
proof -
  note s = mem_split [OF assms(2)]
  have "basicCopy_put_span native Encoding
          (take p mem @ bytes_at mem p (sizeof TYPE('a) * length xs)
             @ drop (p + sizeof TYPE('a) * length xs) mem)
          (length (take p mem)) xs
      = Some (take p mem @ concat (map (object_bytes Encoding) xs)
             @ drop (p + sizeof TYPE('a) * length xs) mem)"
    by (rule basicCopy_put_span_append [OF assms(1) s(3)])
  then show ?thesis using s(1,2) by (simp add: overwrite_def)
qed

lemma basicCopy_get_at:
  assumes "SwapType TYPE('a::len)" "p + sizeof TYPE('a) \<le> length mem"
  shows "basicCopy_get native Encoding mem p
       = Some (object_value Encoding (bytes_at mem p (sizeof TYPE('a))) :: 'a word)"
proof -
  note s = mem_split [OF assms(2)]
  have "basicCopy_get native Encoding
          (take p mem @ bytes_at mem p (sizeof TYPE('a)) @ drop (p + sizeof TYPE('a)) mem)
          (length (take p mem))
      = Some (object_value Encoding (bytes_at mem p (sizeof TYPE('a))) :: 'a word)"
    by (rule basicCopy_get_append [OF assms(1) s(3)])
  then show ?thesis using s(1,2) by simp
qed

lemma basicCopy_get_span_at:
  assumes "SwapType TYPE('a::len)" "p + sizeof TYPE('a) * length dst \<le> length mem"
  shows "basicCopy_get_span native Encoding (dst :: 'a word list) mem p
       = Some (map (object_value Encoding)
           (chunks (sizeof TYPE('a)) (length dst) (bytes_at mem p (sizeof TYPE('a) * length dst))))"
proof -
  note s = mem_split [OF assms(2)]
  have "basicCopy_get_span native Encoding dst
          (take p mem @ bytes_at mem p (sizeof TYPE('a) * length dst)
             @ drop (p + sizeof TYPE('a) * length dst) mem)
          (length (take p mem))
      = Some (map (object_value Encoding)
           (chunks (sizeof TYPE('a)) (length dst) (bytes_at mem p (sizeof TYPE('a) * length dst))))"
    by (rule basicCopy_get_span_append [OF assms(1) s(3)])
  then show ?thesis using s(1,2) by simp
qed

section \<open>The operations of the buffers on memory that holds their range\<close>

lemma unsafePushBack_at:
  assumes "SwapType TYPE('a::len)" "m_begin b + sizeof TYPE('a) \<le> length (storage b)"
  shows "unsafePushBack native Encoding b (x :: 'a word)
       = Some (b\<lparr>storage := overwrite (storage b) (m_begin b) (object_bytes Encoding x),
                 m_begin := m_begin b + sizeof TYPE('a)\<rparr>)"
  by (simp add: unsafePushBack_def basicCopy_put_at [OF assms])

lemma unsafePushBack_span_at:
  assumes "SwapType TYPE('a::len)"
    "m_begin b + sizeof TYPE('a) * length xs \<le> length (storage b)"
  shows "unsafePushBack_span native Encoding b (xs :: 'a word list)
       = Some (b\<lparr>storage := overwrite (storage b) (m_begin b)
                              (concat (map (object_bytes Encoding) xs)),
                 m_begin := m_begin b + sizeof TYPE('a) * length xs\<rparr>)"
  by (simp add: unsafePushBack_span_def basicCopy_put_span_at [OF assms])

lemma unsafePopFront_at:
  assumes "SwapType TYPE('a::len)" "m_begin b + sizeof TYPE('a) \<le> length (storage b)"
  shows "unsafePopFront native Encoding b
       = Some (object_value Encoding (bytes_at (storage b) (m_begin b) (sizeof TYPE('a))) :: 'a word,
               b\<lparr>m_begin := m_begin b + sizeof TYPE('a)\<rparr>)"
  by (simp add: unsafePopFront_def basicCopy_get_at [OF assms])

lemma unsafePopFront_span_at:
  assumes "SwapType TYPE('a::len)"
    "m_begin b + sizeof TYPE('a) * length dst \<le> length (storage b)"
  shows "unsafePopFront_span native Encoding b (dst :: 'a word list)
       = Some (map (object_value Encoding) (chunks (sizeof TYPE('a)) (length dst)
                 (bytes_at (storage b) (m_begin b) (sizeof TYPE('a) * length dst))),
               b\<lparr>m_begin := m_begin b + sizeof TYPE('a) * length dst\<rparr>)"
  by (simp add: unsafePopFront_span_def basicCopy_get_span_at [OF assms])

lemma unsafePopBack_at:
  assumes "SwapType TYPE('a::len)" "sizeof TYPE('a) \<le> m_end b" "m_end b \<le> length (storage b)"
  shows "unsafePopBack native Encoding b
       = Some (object_value Encoding
                 (bytes_at (storage b) (m_end b - sizeof TYPE('a)) (sizeof TYPE('a))) :: 'a word,
               b\<lparr>m_end := m_end b - sizeof TYPE('a)\<rparr>)"
proof -
  have "m_end b - sizeof TYPE('a) + sizeof TYPE('a) \<le> length (storage b)"
    using assms(2,3) by simp
  from basicCopy_get_at [OF assms(1) this] assms(2) show ?thesis
    by (simp add: unsafePopBack_def Let_def)
qed

lemma unsafePopBack_span_at:
  assumes "SwapType TYPE('a::len)" "sizeof TYPE('a) * length dst \<le> m_end b"
    "m_end b \<le> length (storage b)"
  shows "unsafePopBack_span native Encoding b (dst :: 'a word list)
       = Some (map (object_value Encoding) (chunks (sizeof TYPE('a)) (length dst)
                 (bytes_at (storage b) (m_end b - sizeof TYPE('a) * length dst)
                    (sizeof TYPE('a) * length dst))),
               b\<lparr>m_end := m_end b - sizeof TYPE('a) * length dst\<rparr>)"
proof -
  have "m_end b - sizeof TYPE('a) * length dst + sizeof TYPE('a) * length dst
      \<le> length (storage b)"
    using assms(2,3) by simp
  from basicCopy_get_span_at [OF assms(1) this] assms(2) show ?thesis
    by (simp add: unsafePopBack_span_def Let_def)
qed

lemma size_buffer_wf: "m_begin b \<le> m_end b \<Longrightarrow> size_buffer b = m_end b - m_begin b"
  by (simp add: size_buffer_def)

section \<open>Framed strings\<close>

lemma SwapType_8 [simp]: "SwapType TYPE(8)" and SwapType_32 [simp]: "SwapType TYPE(32)"
  by (simp_all add: SwapType_def)

lemma sizeof_8 [simp]: "sizeof TYPE(8) = 1" and sizeof_32 [simp]: "sizeof TYPE(32) = 4"
  by (simp_all add: sizeof_def)

lemma object_bytes_u8 [simp]: "object_bytes Encoding (c :: u8) = [c]"
  by (simp add: object_bytes_def)

lemma concat_object_bytes_u8 [simp]: "concat (map (object_bytes Encoding) (str :: u8 list)) = str"
  by (induction str) simp_all

lemma object_value_u8 [simp]: "object_value Encoding [c] = (c :: u8)"
  by (simp add: object_value_def)

lemma decode_u8_chunks:
  "length bs = n \<Longrightarrow> map (object_value Encoding) (chunks (Suc 0) n bs) = (bs :: u8 list)"
proof (induction n arbitrary: bs)
  case 0
  then show ?case by simp
next
  case (Suc n)
  then obtain c cs where "bs = c # cs" "length cs = n" by (cases bs) auto
  with Suc.IH [of cs] show ?case by simp
qed

lemma overwrite_adjacent:
  assumes "p + length a + length c \<le> length mem"
  shows "overwrite (overwrite mem p a) (p + length a) c = overwrite mem p (a @ c)"
  using assms by (simp add: overwrite_def ac_simps)

lemma bytes_at_add: "bytes_at mem p (n + k) = bytes_at mem p n @ bytes_at mem (p + n) k"
proof -
  have "drop n (drop p mem) = drop (p + n) mem" by (simp add: add.commute)
  then show ?thesis by (simp add: bytes_at_def take_add)
qed

lemma length_bytes_at: "p + n \<le> length mem \<Longrightarrow> length (bytes_at mem p n) = n"
  by (simp add: bytes_at_def)

lemma length_framed_string [simp]: "length (framed_string Encoding str) = length str + 8"
  by (simp add: framed_string_def)

lemma unsafePushBack_string_at:
  assumes "m_begin b + (length str + 8) \<le> length (storage b)"
  shows "unsafePushBack_string native Encoding b str
       = Some (b\<lparr>storage := overwrite (storage b) (m_begin b) (framed_string Encoding str),
                 m_begin := m_begin b + (length str + 8)\<rparr>)"
proof -
  let ?len = "of_nat (length str) :: 32 word"
  let ?L = "object_bytes Encoding ?len"
  define b1 where "b1 = b\<lparr>storage := overwrite (storage b) (m_begin b) ?L,
                          m_begin := m_begin b + 4\<rparr>"
  define b2 where "b2 = b\<lparr>storage := overwrite (storage b) (m_begin b) (?L @ str),
                          m_begin := m_begin b + 4 + length str\<rparr>"
  have 1: "unsafePushBack native Encoding b ?len = Some b1"
    using assms by (simp add: unsafePushBack_at b1_def)
  have len1: "length (storage b1) = length (storage b)"
    using assms by (simp add: b1_def length_overwrite)
  have "unsafePushBack_span native Encoding b1 str
      = Some (b1\<lparr>storage := overwrite (storage b1) (m_begin b1) str,
                   m_begin := m_begin b1 + length str\<rparr>)"
    using assms len1 by (simp add: unsafePushBack_span_at b1_def)
  moreover have "overwrite (storage b1) (m_begin b1) str = overwrite (storage b) (m_begin b) (?L @ str)"
    using assms overwrite_adjacent [of "m_begin b" ?L str "storage b"] by (simp add: b1_def)
  ultimately have 2: "unsafePushBack_span native Encoding b1 str = Some b2"
    by (simp add: b1_def b2_def)
  have len2: "length (storage b2) = length (storage b)"
    using assms by (simp add: b2_def length_overwrite)
  have "unsafePushBack native Encoding b2 ?len
      = Some (b2\<lparr>storage := overwrite (storage b2) (m_begin b2) ?L,
                   m_begin := m_begin b2 + 4\<rparr>)"
    using assms len2 by (simp add: unsafePushBack_at b2_def)
  moreover have "overwrite (storage b2) (m_begin b2) ?L = overwrite (storage b) (m_begin b) (?L @ str @ ?L)"
    using assms overwrite_adjacent [of "m_begin b" "?L @ str" ?L "storage b"]
    by (simp add: b2_def add.assoc)
  ultimately have 3: "unsafePushBack native Encoding b2 ?len
      = Some (b\<lparr>storage := overwrite (storage b) (m_begin b) (framed_string Encoding str),
                  m_begin := m_begin b + (length str + 8)\<rparr>)"
    by (simp add: b2_def framed_string_def)
  show ?thesis
    by (simp add: unsafePushBack_string_def Let_def 1 2 3)
qed

lemma pushBack_string_at:
  assumes "m_begin b + (length str + 8) \<le> m_end b" "m_end b \<le> length (storage b)"
  shows "pushBack_string native Encoding b str
       = Some (False, b\<lparr>storage := overwrite (storage b) (m_begin b) (framed_string Encoding str),
                        m_begin := m_begin b + (length str + 8)\<rparr>)"
proof -
  from assms have "m_begin b + (length str + 8) \<le> length (storage b)" by simp
  from unsafePushBack_string_at [OF this] assms(1) show ?thesis
    by (simp add: pushBack_string_def calculateSerializedSize_def Let_def)
qed

lemma length_resize_string [simp]: "length (resize_string str n) = n"
  by (simp add: resize_string_def)

text \<open>What the two string reads compute, in terms of the two length fields found in
  memory.\<close>

lemma popFront_string_result:
  fixes b :: BasicBuffer and Encoding :: endian
  defines "prefix \<equiv> object_value Encoding (bytes_at (storage b) (m_begin b) 4) :: 32 word"
  defines "suffix \<equiv>
    object_value Encoding (bytes_at (storage b) (m_begin b + 4 + unat prefix) 4) :: 32 word"
  assumes wf: "m_begin b \<le> m_end b" "m_end b \<le> length (storage b)"
  shows "popFront_string native Encoding b str =
     Some (if size_buffer b < 8 \<or> size_buffer b < unat prefix + 8 \<or> prefix \<noteq> suffix
           then (True, [], b)
           else (False, bytes_at (storage b) (m_begin b + 4) (unat prefix),
                 b\<lparr>m_begin := m_begin b + (unat prefix + 8)\<rparr>))"
proof (cases "m_begin b + 8 \<le> m_end b")
  case False
  with wf have "size_buffer b < 8" unfolding size_buffer_def by auto
  with False show ?thesis by (simp add: popFront_string_def)
next
  case room: True
  define b1 where "b1 = b\<lparr>m_begin := m_begin b + 4\<rparr>"
  have 1: "unsafePopFront native Encoding b = Some (prefix, b1)"
    using room wf by (simp add: unsafePopFront_at prefix_def b1_def)
  show ?thesis
  proof (cases "m_begin b + 4 + unat prefix + 4 \<le> m_end b")
    case False
    with room wf have "size_buffer b < unat prefix + 8" unfolding size_buffer_def by auto
    with False room 1 show ?thesis
      by (simp add: popFront_string_def b1_def)
  next
    case content: True
    define str1 where "str1 = resize_string str (unat prefix)"
    define b2 where "b2 = b\<lparr>m_begin := m_begin b + 4 + unat prefix\<rparr>"
    have 2: "(if str1 \<noteq> [] then unsafePopFront_span native Encoding b1 str1 else Some (str1, b1))
        = Some (bytes_at (storage b) (m_begin b + 4) (unat prefix), b2)"
    proof (cases "str1 = []")
      case True
      then have "unat prefix = 0" using length_resize_string [of str "unat prefix"]
        by (simp add: str1_def)
      with True show ?thesis by (simp add: b1_def b2_def bytes_at_def)
    next
      case False
      have "m_begin b1 + sizeof TYPE(8) * length str1 \<le> length (storage b1)"
        using content wf by (simp add: b1_def str1_def)
      moreover have "length (bytes_at (storage b) (m_begin b + 4) (unat prefix)) = unat prefix"
        using content wf by (intro length_bytes_at) simp
      ultimately show ?thesis
        using unsafePopFront_span_at [OF SwapType_8, of b1 str1 native Encoding] False
        by (simp add: b1_def b2_def str1_def decode_u8_chunks)
    qed
    have 3: "unsafePopFront native Encoding b2
        = Some (suffix, b\<lparr>m_begin := m_begin b + (unat prefix + 8)\<rparr>)"
      using content wf by (simp add: unsafePopFront_at suffix_def b2_def add.assoc)
    from room content wf have "\<not> size_buffer b < 8" "\<not> size_buffer b < unat prefix + 8"
      unfolding size_buffer_def by auto
    moreover have "m_begin b1 + unat prefix + 4 \<le> m_end b1"
      using content by (simp add: b1_def)
    ultimately show ?thesis
      using room
      by (simp add: popFront_string_def Let_def 1 str1_def [symmetric] 2 3)
  qed
qed

lemma popBack_string_result:
  fixes b :: BasicBuffer and Encoding :: endian
  defines "suffix \<equiv> object_value Encoding (bytes_at (storage b) (m_end b - 4) 4) :: 32 word"
  defines "prefix \<equiv>
    object_value Encoding (bytes_at (storage b) (m_end b - (unat suffix + 8)) 4) :: 32 word"
  assumes wf: "m_begin b \<le> m_end b" "m_end b \<le> length (storage b)"
  shows "popBack_string native Encoding b str =
     Some (if size_buffer b < 8 \<or> size_buffer b < unat suffix + 8 \<or> suffix \<noteq> prefix
           then (True, [], b)
           else (False, bytes_at (storage b) (m_end b - (unat suffix + 4)) (unat suffix),
                 b\<lparr>m_end := m_end b - (unat suffix + 8)\<rparr>))"
proof (cases "m_begin b + 8 \<le> m_end b")
  case False
  with wf have "size_buffer b < 8" unfolding size_buffer_def by auto
  with False show ?thesis by (simp add: popBack_string_def)
next
  case room: True
  define b1 where "b1 = b\<lparr>m_end := m_end b - 4\<rparr>"
  have 1: "unsafePopBack native Encoding b = Some (suffix, b1)"
    using room wf by (simp add: unsafePopBack_at suffix_def b1_def)
  show ?thesis
  proof (cases "m_begin b + unat suffix + 4 \<le> m_end b - 4")
    case False
    with room wf have "size_buffer b < unat suffix + 8" unfolding size_buffer_def by auto
    with False room 1 show ?thesis
      by (simp add: popBack_string_def b1_def)
  next
    case content: True
    define str1 where "str1 = resize_string str (unat suffix)"
    define b2 where "b2 = b\<lparr>m_end := m_end b - (unat suffix + 4)\<rparr>"
    have 2: "(if str1 \<noteq> [] then unsafePopBack_span native Encoding b1 str1 else Some (str1, b1))
        = Some (bytes_at (storage b) (m_end b - (unat suffix + 4)) (unat suffix), b2)"
    proof (cases "str1 = []")
      case True
      then have "unat suffix = 0" using length_resize_string [of str "unat suffix"]
        by (simp add: str1_def)
      with True show ?thesis by (simp add: b1_def b2_def bytes_at_def)
    next
      case False
      have "sizeof TYPE(8) * length str1 \<le> m_end b1" "m_end b1 \<le> length (storage b1)"
        using content room wf by (simp_all add: b1_def str1_def)
      moreover have "length (bytes_at (storage b) (m_end b - (unat suffix + 4)) (unat suffix))
          = unat suffix"
        using content room wf by (intro length_bytes_at) simp
      moreover have "m_end b - (4 + unat suffix) = m_end b - (unat suffix + 4)" by simp
      ultimately show ?thesis
        using unsafePopBack_span_at [OF SwapType_8, of str1 b1 native Encoding] False
        by (simp add: b1_def b2_def str1_def decode_u8_chunks)
    qed
    have "sizeof TYPE(32) \<le> m_end b2" "m_end b2 \<le> length (storage b2)"
      using content room wf by (simp_all add: b2_def)
    from unsafePopBack_at [OF SwapType_32 this, of native Encoding]
    have 3: "unsafePopBack native Encoding b2
        = Some (prefix, b\<lparr>m_end := m_end b - (unat suffix + 8)\<rparr>)"
      using content room wf by (simp add: prefix_def b2_def add.commute)
    from room content wf have "\<not> size_buffer b < 8" "\<not> size_buffer b < unat suffix + 8"
      unfolding size_buffer_def by auto
    moreover have "m_begin b1 + unat suffix + 4 \<le> m_end b1"
      using content by (simp add: b1_def)
    ultimately show ?thesis
      using room
      by (simp add: popBack_string_def Let_def 1 str1_def [symmetric] 2 3)
  qed
qed

section \<open>Appending to a vector and writing into a buffer\<close>

lemma SwapType_16 [simp]: "SwapType TYPE(16)" and SwapType_64 [simp]: "SwapType TYPE(64)"
  by (simp_all add: SwapType_def)

lemma sizeof_16 [simp]: "sizeof TYPE(16) = 2" and sizeof_64 [simp]: "sizeof TYPE(64) = 8"
  by (simp_all add: sizeof_def)

lemma length_encode_value [simp]: "length (encode_value Encoding x) = sizeof_value x"
  by (cases x) simp_all

lemma length_concat_encode_value [simp]:
  "length (concat (map (encode_value Encoding) xs)) = encoded_length xs"
  by (induction xs) (simp_all add: encoded_length_def)

lemma encoded_length_Cons [simp]: "encoded_length (x # xs) = sizeof_value x + encoded_length xs"
  by (simp add: encoded_length_def)

lemma encoded_length_Nil [simp]: "encoded_length [] = 0"
  by (simp add: encoded_length_def)

text \<open>\<open>reserveExtra\<close> keeps the bytes of the vector and makes room for the new ones.\<close>

lemma reserveExtra_room:
  assumes "m_size v \<le> length (contents (m_data v))"
  shows "m_size (reserveExtra v n) = m_size v"
    and "m_size v + n \<le> length (contents (m_data (reserveExtra v n)))"
    and "take (m_size v) (contents (m_data (reserveExtra v n)))
       = take (m_size v) (contents (m_data v))"
  using assms by (simp_all add: reserveExtra_def Let_def vector_resize_def vector_reserve_def)

lemma take_overwrite_end:
  assumes "p + length src \<le> length mem"
  shows "take (p + length src) (overwrite mem p src) = take p mem @ src"
  using assms by (simp add: overwrite_def)

lemma Vector_pushBack_appends:
  assumes "SwapType TYPE('a::len)" "m_size v \<le> length (contents (m_data v))"
  shows "\<exists>v'. Vector_pushBack native Encoding v (x :: 'a word) = Some v'
           \<and> Vector_bytes v' = Vector_bytes v @ object_bytes Encoding x
           \<and> m_size v' = m_size v + sizeof TYPE('a)
           \<and> m_size v' \<le> length (contents (m_data v'))"
proof -
  define r where "r = reserveExtra v (sizeof TYPE('a))"
  note room = reserveExtra_room [OF assms(2), of "sizeof TYPE('a)", folded r_def]
  let ?mem = "contents (m_data r)"
  have fits: "m_size r + length (object_bytes Encoding x) \<le> length ?mem"
    using room by simp
  have "basic_copy native Encoding ?mem (Vector_size r) x
      = Some (overwrite ?mem (m_size r) (object_bytes Encoding x))"
    using room basicCopy_put_at [OF assms(1), of "m_size r" ?mem native Encoding x]
    by (simp add: basic_copy_def Vector_size_def)
  moreover have "take (m_size r + sizeof TYPE('a)) (overwrite ?mem (m_size r) (object_bytes Encoding x))
      = take (m_size v) (contents (m_data v)) @ object_bytes Encoding x"
    using take_overwrite_end [OF fits] room by simp
  moreover have "length (overwrite ?mem (m_size r) (object_bytes Encoding x)) = length ?mem"
    using length_overwrite [OF fits] .
  ultimately show ?thesis
    using room
    by (simp add: Vector_pushBack_def Vector_unsafePushBack_def r_def [symmetric]
        Vector_bytes_def Vector_size_def)
qed

lemma Vector_pushBack_value_appends:
  assumes "m_size v \<le> length (contents (m_data v))"
  shows "\<exists>v'. Vector_pushBack_value native Encoding v x = Some v'
           \<and> Vector_bytes v' = Vector_bytes v @ encode_value Encoding x
           \<and> m_size v' = m_size v + sizeof_value x
           \<and> m_size v' \<le> length (contents (m_data v'))"
proof (cases x)
  case (U8 y)
  with Vector_pushBack_appends [OF SwapType_8 assms, of native Encoding y] show ?thesis by simp
next
  case (U16 y)
  with Vector_pushBack_appends [OF SwapType_16 assms, of native Encoding y] show ?thesis by simp
next
  case (U32 y)
  with Vector_pushBack_appends [OF SwapType_32 assms, of native Encoding y] show ?thesis by simp
next
  case (U64 y)
  with Vector_pushBack_appends [OF SwapType_64 assms, of native Encoding y] show ?thesis by simp
qed

lemma Vector_pushBack_all_appends:
  assumes "m_size v \<le> length (contents (m_data v))"
  shows "\<exists>v'. Vector_pushBack_all native Encoding v xs = Some v'
           \<and> Vector_bytes v' = Vector_bytes v @ concat (map (encode_value Encoding) xs)
           \<and> m_size v' = m_size v + encoded_length xs"
  using assms
proof (induction xs arbitrary: v)
  case Nil
  then show ?case by simp
next
  case (Cons x xs)
  from Vector_pushBack_value_appends [OF Cons.prems, of native Encoding x]
  obtain v1 where v1: "Vector_pushBack_value native Encoding v x = Some v1"
    "Vector_bytes v1 = Vector_bytes v @ encode_value Encoding x"
    "m_size v1 = m_size v + sizeof_value x"
    "m_size v1 \<le> length (contents (m_data v1))"
    by blast
  from Cons.IH [OF v1(4)] v1(1,2,3) show ?case by auto
qed

lemma pushBack_writes:
  assumes "SwapType TYPE('a::len)" "m_begin b + sizeof TYPE('a) \<le> m_end b"
    "m_end b \<le> length (storage b)"
  shows "pushBack native Encoding b (x :: 'a word)
       = Some (False, b\<lparr>storage := overwrite (storage b) (m_begin b) (object_bytes Encoding x),
                        m_begin := m_begin b + sizeof TYPE('a)\<rparr>)"
proof -
  from assms(2,3) have "m_begin b + sizeof TYPE('a) \<le> length (storage b)" by simp
  from unsafePushBack_at [OF assms(1) this] assms(2) show ?thesis
    by (simp add: pushBack_def)
qed

lemma pushBack_value_writes:
  assumes "m_begin b + sizeof_value x \<le> m_end b" "m_end b \<le> length (storage b)"
  shows "pushBack_value native Encoding b x
       = Some (False, b\<lparr>storage := overwrite (storage b) (m_begin b) (encode_value Encoding x),
                        m_begin := m_begin b + sizeof_value x\<rparr>)"
proof (cases x)
  case (U8 y)
  with pushBack_writes [OF SwapType_8, of b native Encoding y] assms show ?thesis by simp
next
  case (U16 y)
  with pushBack_writes [OF SwapType_16, of b native Encoding y] assms show ?thesis by simp
next
  case (U32 y)
  with pushBack_writes [OF SwapType_32, of b native Encoding y] assms show ?thesis by simp
next
  case (U64 y)
  with pushBack_writes [OF SwapType_64, of b native Encoding y] assms show ?thesis by simp
qed

lemma pushBack_all_writes:
  assumes "m_begin b + encoded_length xs \<le> m_end b" "m_end b \<le> length (storage b)"
  shows "pushBack_all native Encoding b xs
       = Some (False, b\<lparr>storage := overwrite (storage b) (m_begin b)
                                     (concat (map (encode_value Encoding) xs)),
                        m_begin := m_begin b + encoded_length xs\<rparr>)"
  using assms
proof (induction xs arbitrary: b)
  case Nil
  then show ?case by (simp add: overwrite_def)
next
  case (Cons x xs)
  define b1 where "b1 = b\<lparr>storage := overwrite (storage b) (m_begin b) (encode_value Encoding x),
                          m_begin := m_begin b + sizeof_value x\<rparr>"
  have 1: "pushBack_value native Encoding b x = Some (False, b1)"
    using Cons.prems by (simp add: pushBack_value_writes b1_def)
  have len: "length (storage b1) = length (storage b)"
    using Cons.prems by (simp add: b1_def length_overwrite)
  have "m_begin b1 + encoded_length xs \<le> m_end b1" "m_end b1 \<le> length (storage b1)"
    using Cons.prems len by (simp_all add: b1_def)
  from Cons.IH [OF this]
  have 2: "pushBack_all native Encoding b1 xs
       = Some (False, b1\<lparr>storage := overwrite (storage b1) (m_begin b1)
                                     (concat (map (encode_value Encoding) xs)),
                        m_begin := m_begin b1 + encoded_length xs\<rparr>)" .
  have "overwrite (storage b1) (m_begin b1) (concat (map (encode_value Encoding) xs))
      = overwrite (storage b) (m_begin b)
          (encode_value Encoding x @ concat (map (encode_value Encoding) xs))"
    using Cons.prems
      overwrite_adjacent [of "m_begin b" "encode_value Encoding x"
        "concat (map (encode_value Encoding) xs)" "storage b"]
    by (simp add: b1_def)
  with 1 2 show ?case by (simp add: b1_def add.assoc)
qed

section \<open>The copy phase and the padding of ByteArray\<close>













section \<open>The byte swap is an involution\<close>

text \<open>
  C6. For every supported width (1, 2, 4 or 8 bytes) and every integral or enumeration
  value \<open>x\<close> of that width, swapping the bytes twice gives \<open>x\<close> back; for the width of
  one byte the swap is the identity.
\<close>

theorem byteSwap_twice:
  assumes "SwapType TYPE('a::len)"
  shows "byteSwap (byteSwap x) = (x :: 'a word)
    \<and> byteSwap_enum (byteSwap_enum e) = (e :: 'a enum_value)
    \<and> (sizeof TYPE('a) = 1 \<longrightarrow> byteSwap x = x \<and> byteSwap_enum e = e)"
  using assms
  by (simp add: byteSwap_involutive byteSwap_enum_def to_underlying_def
      from_underlying_def byteSwap_single_byte)

theorem byteSwap_twice_witness:
  "SwapType TYPE(32) \<and> byteSwap (byteSwap (0x12345678 :: 32 word)) = 0x12345678
   \<and> SwapType TYPE(8) \<and> sizeof TYPE(8) = 1 \<and> byteSwap (0x5A :: 8 word) = 0x5A
   \<and> byteSwap_enum (0x5A :: 8 enum_value) = 0x5A"
proof -
  have s32: "SwapType TYPE(32)" and s8: "SwapType TYPE(8)"
    by (simp_all add: SwapType_def)
  have one: "sizeof TYPE(8) = 1" by (simp add: sizeof_def)
  from byteSwap_twice [OF s32, of "0x12345678"] byteSwap_twice [OF s8, of "0x5A" "0x5A"]
  show ?thesis using s32 s8 one by simp
qed

section \<open>The error query of Vector\<close>

text \<open>
  C10. For every state of a \<open>Vector\<close>, \<open>error()\<close> returns 0: the check compares the
  logical size with itself, so the condition the function documents (the logical size
  exceeding the capacity) is never reported.
\<close>

theorem Vector_error_always_zero: "Vector_error v = 0"
  by (simp add: Vector_error_def)


section \<open>The bounds check of the safe single-value operations\<close>

text \<open>
  C4. For a swappable type \<open>T\<close> and a write buffer whose range lies in its memory, the
  safe \<open>pushBack\<close> of a value returns \<open>true\<close> and leaves cursor and bytes unchanged when
  fewer than \<open>sizeof(T)\<close> bytes remain; otherwise it writes the value at the cursor in
  stream order, advances the cursor by \<open>sizeof(T)\<close> and returns \<open>false\<close>, and when
  exactly \<open>sizeof(T)\<close> bytes remained the buffer is empty afterwards. The safe \<open>popFront\<close>
  of a value mirrors this: failure leaves buffer and destination unchanged, success
  reads the value at the cursor and advances by \<open>sizeof(T)\<close>.
\<close>

theorem pushBack_popFront_bounds:
  assumes "SwapType TYPE('a::len)" "m_begin b \<le> m_end b" "m_end b \<le> length (storage b)"
  shows "(size_buffer b < sizeof TYPE('a) \<longrightarrow>
            pushBack native Encoding b (x :: 'a word) = Some (True, b)
          \<and> popFront native Encoding b (y :: 'a word) = Some (True, y, b))
       \<and> (sizeof TYPE('a) \<le> size_buffer b \<longrightarrow>
            pushBack native Encoding b x
              = Some (False, b\<lparr>storage := overwrite (storage b) (m_begin b) (object_bytes Encoding x),
                               m_begin := m_begin b + sizeof TYPE('a)\<rparr>)
          \<and> popFront native Encoding b y
              = Some (False,
                      object_value Encoding (bytes_at (storage b) (m_begin b) (sizeof TYPE('a))),
                      b\<lparr>m_begin := m_begin b + sizeof TYPE('a)\<rparr>))
       \<and> (sizeof TYPE('a) = size_buffer b \<longrightarrow>
            (\<exists>b'. pushBack native Encoding b x = Some (False, b') \<and> empty_buffer b'))"
proof -
  have fails: "pushBack native Encoding b x = Some (True, b)"
    "popFront native Encoding b y = Some (True, y, b)"
    if "size_buffer b < sizeof TYPE('a)"
  proof -
    from that assms(2) have "\<not> m_begin b + sizeof TYPE('a) \<le> m_end b"
      by (simp add: size_buffer_wf)
    then show "pushBack native Encoding b x = Some (True, b)"
      "popFront native Encoding b y = Some (True, y, b)"
      by (simp_all add: pushBack_def popFront_def)
  qed
  have succeeds:
    "pushBack native Encoding b x
       = Some (False, b\<lparr>storage := overwrite (storage b) (m_begin b) (object_bytes Encoding x),
                        m_begin := m_begin b + sizeof TYPE('a)\<rparr>)"
    "popFront native Encoding b y
       = Some (False, object_value Encoding (bytes_at (storage b) (m_begin b) (sizeof TYPE('a))),
               b\<lparr>m_begin := m_begin b + sizeof TYPE('a)\<rparr>)"
    if "sizeof TYPE('a) \<le> size_buffer b"
  proof -
    from that assms(2) have fits: "m_begin b + sizeof TYPE('a) \<le> m_end b"
      by (simp add: size_buffer_wf)
    with assms(3) have mem: "m_begin b + sizeof TYPE('a) \<le> length (storage b)" by simp
    show "pushBack native Encoding b x
       = Some (False, b\<lparr>storage := overwrite (storage b) (m_begin b) (object_bytes Encoding x),
                        m_begin := m_begin b + sizeof TYPE('a)\<rparr>)"
      using fits by (simp add: pushBack_def unsafePushBack_at [OF assms(1) mem])
    show "popFront native Encoding b y
       = Some (False, object_value Encoding (bytes_at (storage b) (m_begin b) (sizeof TYPE('a))),
               b\<lparr>m_begin := m_begin b + sizeof TYPE('a)\<rparr>)"
      using fits by (simp add: popFront_def unsafePopFront_at [OF assms(1) mem])
  qed
  have exact: "\<exists>b'. pushBack native Encoding b x = Some (False, b') \<and> empty_buffer b'"
    if "sizeof TYPE('a) = size_buffer b"
  proof -
    from that assms(2) have "m_begin b + sizeof TYPE('a) = m_end b"
      by (simp add: size_buffer_wf)
    with succeeds(1) that show ?thesis by (simp add: empty_buffer_def)
  qed
  from fails succeeds exact show ?thesis by blast
qed

text \<open>A 4-byte value against exactly 3 and against exactly 4 remaining bytes, on a
  big-endian machine writing the little-endian stream order.\<close>

theorem pushBack_popFront_bounds_witness:
  "pushBack big little \<lparr>storage = [7, 7, 7], m_begin = 0, m_end = 3\<rparr> (0x01020304 :: 32 word)
     = Some (True, \<lparr>storage = [7, 7, 7], m_begin = 0, m_end = 3\<rparr>)
   \<and> popFront big little \<lparr>storage = [7, 7, 7], m_begin = 0, m_end = 3\<rparr> (9 :: 32 word)
     = Some (True, 9, \<lparr>storage = [7, 7, 7], m_begin = 0, m_end = 3\<rparr>)
   \<and> pushBack big little \<lparr>storage = [7, 7, 7, 7], m_begin = 0, m_end = 4\<rparr> (0x01020304 :: 32 word)
     = Some (False, \<lparr>storage = [4, 3, 2, 1], m_begin = 4, m_end = 4\<rparr>)
   \<and> empty_buffer \<lparr>storage = [4, 3, 2, 1], m_begin = 4, m_end = 4\<rparr>
   \<and> popFront big little \<lparr>storage = [4, 3, 2, 1], m_begin = 0, m_end = 4\<rparr> (9 :: 32 word)
     = Some (False, 0x01020304, \<lparr>storage = [4, 3, 2, 1], m_begin = 4, m_end = 4\<rparr>)"
proof -
  have s: "SwapType TYPE(32)" by (simp add: SwapType_def)
  have sz: "sizeof TYPE(32) = 4" by (simp add: sizeof_def)
  have enc: "object_bytes little (0x01020304 :: 32 word) = [4, 3, 2, 1]"
    by code_simp
  have dec: "object_value little [4, 3, 2, 1] = (0x01020304 :: 32 word)"
    by code_simp
  from pushBack_popFront_bounds [OF s, of "\<lparr>storage = [7, 7, 7], m_begin = 0, m_end = 3\<rparr>"
      big little "0x01020304" 9]
    pushBack_popFront_bounds [OF s, of "\<lparr>storage = [7, 7, 7, 7], m_begin = 0, m_end = 4\<rparr>"
      big little "0x01020304" 9]
    pushBack_popFront_bounds [OF s, of "\<lparr>storage = [4, 3, 2, 1], m_begin = 0, m_end = 4\<rparr>"
      big little "0x01020304" 9]
  show ?thesis
    by (simp add: size_buffer_def sz enc dec overwrite_def bytes_at_def empty_buffer_def)
qed


section \<open>Writing, then reading back\<close>

text \<open>
  C1. For every value of a swappable type and every span of such values: writing it
  with the safe \<open>pushBack\<close> into a buffer of exactly sufficient size succeeds and fills
  the buffer, and reading the written range back with \<open>popFront\<close> or \<open>popBack\<close> yields
  the original value (the original span), whatever the native byte order of the
  writer and of the reader.
\<close>

theorem pushBack_pop_roundtrip:
  assumes "SwapType TYPE('a::len)"
  shows "(m_end b = m_begin b + sizeof TYPE('a) \<and> m_end b \<le> length (storage b) \<longrightarrow>
            (\<exists>b'. pushBack wnative Encoding b (x :: 'a word) = Some (False, b')
               \<and> empty_buffer b'
               \<and> popFront rnative Encoding (b'\<lparr>m_begin := m_begin b\<rparr>) y
                   = Some (False, x, b')
               \<and> popBack rnative Encoding (b'\<lparr>m_begin := m_begin b\<rparr>) y
                   = Some (False, x, b'\<lparr>m_begin := m_begin b, m_end := m_begin b\<rparr>)))
       \<and> (m_end b = m_begin b + sizeof TYPE('a) * length xs \<and> m_end b \<le> length (storage b)
            \<and> length ys = length xs \<longrightarrow>
            (\<exists>b'. pushBack_span wnative Encoding b (xs :: 'a word list) = Some (False, b')
               \<and> empty_buffer b'
               \<and> popFront_span rnative Encoding (b'\<lparr>m_begin := m_begin b\<rparr>) ys
                   = Some (False, xs, b')
               \<and> popBack_span rnative Encoding (b'\<lparr>m_begin := m_begin b\<rparr>) ys
                   = Some (False, xs, b'\<lparr>m_begin := m_begin b, m_end := m_begin b\<rparr>)))"
proof (intro conjI impI; elim conjE)
  let ?sz = "sizeof TYPE('a)"
  assume fit: "m_end b = m_begin b + ?sz" and mem: "m_end b \<le> length (storage b)"
  define b' where "b' = b\<lparr>storage := overwrite (storage b) (m_begin b) (object_bytes Encoding x),
                          m_begin := m_begin b + ?sz\<rparr>"
  define r where "r = b'\<lparr>m_begin := m_begin b\<rparr>"
  from fit mem have in_mem: "m_begin b + ?sz \<le> length (storage b)" by simp
  then have in_mem': "m_begin b + length (object_bytes Encoding x) \<le> length (storage b)" by simp
  have written: "bytes_at (storage r) (m_begin b) ?sz = object_bytes Encoding x"
    using bytes_at_overwrite_same [OF in_mem'] by (simp add: r_def b'_def)
  have len: "length (storage r) = length (storage b)"
    using length_overwrite [OF in_mem'] by (simp add: r_def b'_def)
  have r: "m_begin r = m_begin b" "m_end r = m_begin b + ?sz"
    by (simp_all add: r_def b'_def fit)
  have push: "pushBack wnative Encoding b x = Some (False, b')"
    using fit by (simp add: pushBack_def unsafePushBack_at [OF assms in_mem] b'_def)
  have rd_front: "popFront rnative Encoding r y = Some (False, x, b')"
  proof -
    have "m_begin r + ?sz \<le> length (storage r)" using r len in_mem by simp
    from unsafePopFront_at [OF assms this, of rnative Encoding] show ?thesis
      by (simp add: popFront_def r written object_value_object_bytes [OF assms])
        (simp add: r_def b'_def)
  qed
  have rd_back: "popBack rnative Encoding r y
      = Some (False, x, b'\<lparr>m_begin := m_begin b, m_end := m_begin b\<rparr>)"
  proof -
    have "?sz \<le> m_end r" "m_end r \<le> length (storage r)" using r len in_mem by simp_all
    from unsafePopBack_at [OF assms this, of rnative Encoding] show ?thesis
      by (simp add: popBack_def r written object_value_object_bytes [OF assms])
        (simp add: r_def b'_def)
  qed
  have "empty_buffer b'" by (simp add: empty_buffer_def b'_def fit)
  with push rd_front rd_back
  show "\<exists>b'. pushBack wnative Encoding b x = Some (False, b')
     \<and> empty_buffer b'
     \<and> popFront rnative Encoding (b'\<lparr>m_begin := m_begin b\<rparr>) y = Some (False, x, b')
     \<and> popBack rnative Encoding (b'\<lparr>m_begin := m_begin b\<rparr>) y
         = Some (False, x, b'\<lparr>m_begin := m_begin b, m_end := m_begin b\<rparr>)"
    unfolding r_def by blast
next
  let ?sz = "sizeof TYPE('a)"
  let ?n = "?sz * length xs"
  let ?bytes = "concat (map (object_bytes Encoding) xs)"
  assume fit: "m_end b = m_begin b + ?n" and mem: "m_end b \<le> length (storage b)"
    and ys: "length ys = length xs"
  define b' where "b' = b\<lparr>storage := overwrite (storage b) (m_begin b) ?bytes,
                          m_begin := m_begin b + ?n\<rparr>"
  define r where "r = b'\<lparr>m_begin := m_begin b\<rparr>"
  from fit mem have in_mem: "m_begin b + ?n \<le> length (storage b)" by simp
  then have in_mem': "m_begin b + length ?bytes \<le> length (storage b)" by simp
  have written: "bytes_at (storage r) (m_begin b) ?n = ?bytes"
    using bytes_at_overwrite_same [OF in_mem'] by (simp add: r_def b'_def)
  have len: "length (storage r) = length (storage b)"
    using length_overwrite [OF in_mem'] by (simp add: r_def b'_def)
  have r: "m_begin r = m_begin b" "m_end r = m_begin b + ?n"
    by (simp_all add: r_def b'_def fit)
  have decoded: "map (object_value Encoding) (chunks ?sz (length xs) ?bytes) = xs"
    by (simp add: chunks_concat_object_bytes comp_def object_value_object_bytes [OF assms])
  have push: "pushBack_span wnative Encoding b xs = Some (False, b')"
    using fit by (simp add: pushBack_span_def unsafePushBack_span_at [OF assms in_mem] b'_def)
  have rd_front: "popFront_span rnative Encoding r ys = Some (False, xs, b')"
  proof -
    have "m_begin r + ?sz * length ys \<le> length (storage r)" using r len in_mem ys by simp
    from unsafePopFront_span_at [OF assms this, of rnative Encoding] show ?thesis
      by (simp add: popFront_span_def r ys written decoded) (simp add: r_def b'_def)
  qed
  have rd_back: "popBack_span rnative Encoding r ys
      = Some (False, xs, b'\<lparr>m_begin := m_begin b, m_end := m_begin b\<rparr>)"
  proof -
    have "?sz * length ys \<le> m_end r" "m_end r \<le> length (storage r)"
      using r len in_mem ys by simp_all
    from unsafePopBack_span_at [OF assms this, of rnative Encoding] show ?thesis
      by (simp add: popBack_span_def r ys written decoded) (simp add: r_def b'_def)
  qed
  have "empty_buffer b'" by (simp add: empty_buffer_def b'_def fit)
  with push rd_front rd_back
  show "\<exists>b'. pushBack_span wnative Encoding b xs = Some (False, b')
     \<and> empty_buffer b'
     \<and> popFront_span rnative Encoding (b'\<lparr>m_begin := m_begin b\<rparr>) ys = Some (False, xs, b')
     \<and> popBack_span rnative Encoding (b'\<lparr>m_begin := m_begin b\<rparr>) ys
         = Some (False, xs, b'\<lparr>m_begin := m_begin b, m_end := m_begin b\<rparr>)"
    unfolding r_def by blast
qed

text \<open>A 2-byte value and a span of three, written on a big-endian machine and read on a
  little-endian one, in little-endian stream order.\<close>

theorem pushBack_pop_roundtrip_witness:
  "SwapType TYPE(16)
   \<and> pushBack big little \<lparr>storage = [9, 9], m_begin = 0, m_end = 2\<rparr> (0x0102 :: 16 word)
       = Some (False, \<lparr>storage = [2, 1], m_begin = 2, m_end = 2\<rparr>)
   \<and> (\<exists>b'. pushBack big little \<lparr>storage = [9, 9], m_begin = 0, m_end = 2\<rparr> (0x0102 :: 16 word)
          = Some (False, b')
        \<and> empty_buffer b'
        \<and> popFront little little (b'\<lparr>m_begin := 0\<rparr>) (0 :: 16 word) = Some (False, 0x0102, b')
        \<and> popBack little little (b'\<lparr>m_begin := 0\<rparr>) (0 :: 16 word)
          = Some (False, 0x0102, b'\<lparr>m_begin := 0, m_end := 0\<rparr>))
   \<and> (\<exists>b'. pushBack_span big little \<lparr>storage = [9, 9, 9, 9, 9, 9], m_begin = 0, m_end = 6\<rparr>
            [0x0102 :: 16 word, 0x0304, 0x0506]
          = Some (False, b')
        \<and> empty_buffer b'
        \<and> popFront_span little little (b'\<lparr>m_begin := 0\<rparr>) [0 :: 16 word, 0, 0]
          = Some (False, [0x0102, 0x0304, 0x0506], b')
        \<and> popBack_span little little (b'\<lparr>m_begin := 0\<rparr>) [0 :: 16 word, 0, 0]
          = Some (False, [0x0102, 0x0304, 0x0506], b'\<lparr>m_begin := 0, m_end := 0\<rparr>))"
  (is "_ \<and> _ \<and> ?value \<and> ?span")
proof -
  have s: "SwapType TYPE(16)" by (simp add: SwapType_def)
  have sz: "sizeof TYPE(16) = 2" by (simp add: sizeof_def)
  have run: "pushBack big little \<lparr>storage = [9, 9], m_begin = 0, m_end = 2\<rparr> (0x0102 :: 16 word)
       = Some (False, \<lparr>storage = [2, 1], m_begin = 2, m_end = 2\<rparr>)"
    by code_simp
  have "?value"
    using pushBack_pop_roundtrip [OF s,
      where b = "\<lparr>storage = [9, 9], m_begin = 0, m_end = 2\<rparr>" and x = "0x0102" and y = 0
        and xs = "[]" and ys = "[]" and wnative = big and rnative = little and Encoding = little]
    by (simp add: sz)
  moreover have "?span"
    using pushBack_pop_roundtrip [OF s,
      where b = "\<lparr>storage = [9, 9, 9, 9, 9, 9], m_begin = 0, m_end = 6\<rparr>"
        and x = 0 and y = 0 and xs = "[0x0102, 0x0304, 0x0506]" and ys = "[0, 0, 0]"
        and wnative = big and rnative = little and Encoding = little]
    by (simp add: sz)
  ultimately show ?thesis using s run by (intro conjI)
qed

section \<open>The framing of a string\<close>

text \<open>
  C2. In little-endian stream order, the string \<open>pushBack\<close> of a write buffer over 13
  bytes encodes \<open>"hello"\<close> as exactly \<open>05 00 00 00\<close>, \<open>h e l l o\<close>, \<open>05 00 00 00\<close>; and the
  string \<open>popFront\<close> of a read buffer over those 13 bytes succeeds, yields \<open>"hello"\<close> and
  advances the front cursor by exactly 13 bytes. Both hold on either native byte order
  and whatever the memory and the destination string held before.
\<close>

theorem hello_framing:
  assumes "length mem = 13"
  shows "pushBack_string native stream_endian \<lparr>storage = mem, m_begin = 0, m_end = 13\<rparr> hello
       = Some (False, \<lparr>storage = [5, 0, 0, 0, 0x68, 0x65, 0x6C, 0x6C, 0x6F, 5, 0, 0, 0],
                        m_begin = 13, m_end = 13\<rparr>)
     \<and> popFront_string native stream_endian
         \<lparr>storage = [5, 0, 0, 0, 0x68, 0x65, 0x6C, 0x6C, 0x6F, 5, 0, 0, 0],
          m_begin = 0, m_end = 13\<rparr> str
       = Some (False, hello,
               \<lparr>storage = [5, 0, 0, 0, 0x68, 0x65, 0x6C, 0x6C, 0x6F, 5, 0, 0, 0],
                m_begin = 13, m_end = 13\<rparr>)"
proof
  have frame: "framed_string little hello = [5, 0, 0, 0, 0x68, 0x65, 0x6C, 0x6C, 0x6F, 5, 0, 0, 0]"
    by (simp add: framed_string_def hello_def object_bytes_def bytes_le_numeral)
  from pushBack_string_at [of "\<lparr>storage = mem, m_begin = 0, m_end = 13\<rparr>" hello native little]
  show "pushBack_string native stream_endian \<lparr>storage = mem, m_begin = 0, m_end = 13\<rparr> hello
       = Some (False, \<lparr>storage = [5, 0, 0, 0, 0x68, 0x65, 0x6C, 0x6C, 0x6F, 5, 0, 0, 0],
                        m_begin = 13, m_end = 13\<rparr>)"
    using assms by (simp add: stream_endian_def frame overwrite_def) (simp add: hello_def)
next
  let ?bytes = "[5, 0, 0, 0, 0x68, 0x65, 0x6C, 0x6C, 0x6F, 5, 0, 0, 0] :: u8 list"
  let ?r = "\<lparr>storage = ?bytes, m_begin = 0, m_end = 13\<rparr>"
  have five: "object_value little [5, 0, 0, 0 :: u8] = (5 :: 32 word)"
    by (simp add: object_value_def)
  from popFront_string_result [where b = ?r and Encoding = little and native = native and str = str]
  show "popFront_string native stream_endian ?r str
      = Some (False, hello, \<lparr>storage = ?bytes, m_begin = 13, m_end = 13\<rparr>)"
    by (simp add: stream_endian_def bytes_at_def five size_buffer_def hello_def)
qed

theorem hello_framing_witness:
  "length (replicate 13 (0xAA :: u8)) = 13
   \<and> pushBack_string big stream_endian
        \<lparr>storage = replicate 13 0xAA, m_begin = 0, m_end = 13\<rparr> hello
       = Some (False, \<lparr>storage = [5, 0, 0, 0, 0x68, 0x65, 0x6C, 0x6C, 0x6F, 5, 0, 0, 0],
                        m_begin = 13, m_end = 13\<rparr>)
   \<and> popFront_string big stream_endian
         \<lparr>storage = [5, 0, 0, 0, 0x68, 0x65, 0x6C, 0x6C, 0x6F, 5, 0, 0, 0],
          m_begin = 0, m_end = 13\<rparr> [1, 2, 3]
       = Some (False, hello,
               \<lparr>storage = [5, 0, 0, 0, 0x68, 0x65, 0x6C, 0x6C, 0x6F, 5, 0, 0, 0],
                m_begin = 13, m_end = 13\<rparr>)"
  using hello_framing [where mem = "replicate 13 0xAA" and native = big and str = "[1, 2, 3]"]
  by simp

section \<open>A failed string read changes nothing\<close>

text \<open>
  C3. For every read buffer whose range lies in its memory and every destination
  string, the framed-string \<open>popFront\<close> fails exactly when fewer than 8 bytes are
  available, or the bytes do not suffice for the content and the second length field,
  or the two length fields differ; and when it fails it returns \<open>true\<close>, leaves the
  destination string empty and leaves the buffer as it was before the call. The same
  holds for \<open>popBack\<close>, which reads the record from the back.
\<close>

theorem string_pop_failure_atomic:
  assumes "m_begin b \<le> m_end b" "m_end b \<le> length (storage b)"
  shows
    "(let prefix = (object_value Encoding (bytes_at (storage b) (m_begin b) 4) :: 32 word);
          suffix = (object_value Encoding
                      (bytes_at (storage b) (m_begin b + 4 + unat prefix) 4) :: 32 word)
      in \<exists>failed str' b'.
           popFront_string native Encoding b str = Some (failed, str', b')
         \<and> (failed \<longrightarrow> str' = [] \<and> b' = b)
         \<and> failed = (size_buffer b < 8 \<or> size_buffer b < unat prefix + 8 \<or> prefix \<noteq> suffix))
   \<and> (let suffix = (object_value Encoding (bytes_at (storage b) (m_end b - 4) 4) :: 32 word);
          prefix = (object_value Encoding
                      (bytes_at (storage b) (m_end b - (unat suffix + 8)) 4) :: 32 word)
      in \<exists>failed str' b'.
           popBack_string native Encoding b str = Some (failed, str', b')
         \<and> (failed \<longrightarrow> str' = [] \<and> b' = b)
         \<and> failed = (size_buffer b < 8 \<or> size_buffer b < unat suffix + 8 \<or> suffix \<noteq> prefix))"
  unfolding Let_def
  by (simp add: popFront_string_result [OF assms] popBack_string_result [OF assms])

text \<open>The encoding of \<open>"hello"\<close> with the trailing length changed to 6.\<close>

theorem string_pop_failure_atomic_witness:
  "popFront_string little little
      \<lparr>storage = [5, 0, 0, 0, 0x68, 0x65, 0x6C, 0x6C, 0x6F, 6, 0, 0, 0], m_begin = 0, m_end = 13\<rparr>
      [1, 2, 3]
     = Some (True, [],
        \<lparr>storage = [5, 0, 0, 0, 0x68, 0x65, 0x6C, 0x6C, 0x6F, 6, 0, 0, 0], m_begin = 0, m_end = 13\<rparr>)
   \<and> popBack_string little little
      \<lparr>storage = [5, 0, 0, 0, 0x68, 0x65, 0x6C, 0x6C, 0x6F, 6, 0, 0, 0], m_begin = 0, m_end = 13\<rparr>
      [1, 2, 3]
     = Some (True, [],
        \<lparr>storage = [5, 0, 0, 0, 0x68, 0x65, 0x6C, 0x6C, 0x6F, 6, 0, 0, 0], m_begin = 0, m_end = 13\<rparr>)"
proof -
  let ?b = "\<lparr>storage = [5, 0, 0, 0, 0x68, 0x65, 0x6C, 0x6C, 0x6F, 6, 0, 0, 0 :: u8],
             m_begin = 0, m_end = 13\<rparr>"
  have five: "object_value little [5, 0, 0, 0 :: u8] = (5 :: 32 word)"
    and six: "object_value little [6, 0, 0, 0 :: u8] = (6 :: 32 word)"
    by (simp_all add: object_value_def)
  have "m_begin ?b \<le> m_end ?b" "m_end ?b \<le> length (storage ?b)" by simp_all
  from string_pop_failure_atomic [OF this,
      where Encoding = little and native = little and str = "[1, 2, 3]"]
  show ?thesis
    by (auto simp add: Let_def bytes_at_def five six size_buffer_def)
qed

section \<open>The size check of the wide-string write\<close>

text \<open>
  C5. The safe \<open>pushBack\<close> of a wide string is specified to succeed exactly when at
  least \<open>8 + w.size() * sizeof(wchar_t)\<close> bytes remain, the number of bytes the write
  takes. \<open>calculateSerializedSize\<close> computes \<open>8 + w.size() * 2\<close>. Where \<open>wchar_t\<close> has 4 bytes, a string of one
  character against exactly 10 remaining bytes passes the check, and the write takes
  12 bytes: it runs 2 bytes past the end of the buffer (and out of the memory, when
  the memory ends there).
\<close>

theorem pushBack_wstring_overrun:
  "calculateSerializedSize_wstring [0x61 :: 32 word] = 10
   \<and> 8 + length [0x61 :: 32 word] * sizeof TYPE(32) = 12
   \<and> pushBack_wstring little little
        \<lparr>storage = replicate 12 0, m_begin = 0, m_end = 10\<rparr> [0x61 :: 32 word]
       = Some (False, \<lparr>storage = [1, 0, 0, 0, 0x61, 0, 0, 0, 1, 0, 0, 0],
                        m_begin = 12, m_end = 10\<rparr>)
   \<and> pushBack_wstring little little
        \<lparr>storage = replicate 10 0, m_begin = 0, m_end = 10\<rparr> [0x61 :: 32 word]
       = None"
  by code_simp

section \<open>Growth of the vector keeps the content\<close>

text \<open>
  C9. For every finite sequence of values of swappable types, appending them one at a
  time to an empty vector (each \<open>pushBack\<close> reserving room first, and reallocating where
  needed) always succeeds and leaves exactly the bytes, and the logical size, that the
  safe \<open>pushBack\<close>s of the same values leave in one write buffer whose size is the total
  encoded length; all those writes succeed and fill the buffer.
\<close>

theorem Vector_growth_preserves_content:
  assumes "length mem = encoded_length xs"
  shows "\<exists>v b. Vector_pushBack_all native Encoding BasicVector_new xs = Some v
           \<and> pushBack_all native Encoding
                \<lparr>storage = mem, m_begin = 0, m_end = encoded_length xs\<rparr> xs = Some (False, b)
           \<and> empty_buffer b
           \<and> Vector_size v = encoded_length xs
           \<and> Vector_bytes v = storage b
           \<and> Vector_bytes v = concat (map (encode_value Encoding) xs)"
proof -
  let ?b = "\<lparr>storage = mem, m_begin = 0, m_end = encoded_length xs\<rparr>"
  let ?bytes = "concat (map (encode_value Encoding) xs)"
  have "m_size BasicVector_new \<le> length (contents (m_data BasicVector_new))"
    by (simp add: BasicVector_new_def)
  from Vector_pushBack_all_appends [OF this, of native Encoding xs]
  obtain v where v: "Vector_pushBack_all native Encoding BasicVector_new xs = Some v"
    "Vector_bytes v = ?bytes" "m_size v = encoded_length xs"
    by (auto simp add: BasicVector_new_def Vector_bytes_def Vector_size_def)
  have "m_begin ?b + encoded_length xs \<le> m_end ?b" "m_end ?b \<le> length (storage ?b)"
    using assms by simp_all
  from pushBack_all_writes [OF this, of native Encoding]
  have b: "pushBack_all native Encoding ?b xs
      = Some (False, \<lparr>storage = ?bytes, m_begin = encoded_length xs, m_end = encoded_length xs\<rparr>)"
    using assms by (simp add: overwrite_def)
  from v b show ?thesis by (simp add: empty_buffer_def Vector_size_def)
qed

theorem Vector_growth_preserves_content_witness:
  "length (replicate 15 (7 :: u8))
     = encoded_length [U8 1, U32 0x01020304, U16 0x0506, U64 0x0102030405060708]
   \<and> (\<exists>v b. Vector_pushBack_all big little BasicVector_new
               [U8 1, U32 0x01020304, U16 0x0506, U64 0x0102030405060708] = Some v
           \<and> pushBack_all big little \<lparr>storage = replicate 15 7, m_begin = 0, m_end = 15\<rparr>
               [U8 1, U32 0x01020304, U16 0x0506, U64 0x0102030405060708] = Some (False, b)
           \<and> empty_buffer b
           \<and> Vector_size v = 15
           \<and> Vector_bytes v = storage b
           \<and> Vector_bytes v = [1, 4, 3, 2, 1, 6, 5, 8, 7, 6, 5, 4, 3, 2, 1])"
  (is "?len \<and> ?same")
proof -
  let ?xs = "[U8 1, U32 0x01020304, U16 0x0506, U64 0x0102030405060708]"
  have len: "encoded_length ?xs = 15" by simp
  have enc: "concat (map (encode_value little) ?xs) = [1, 4, 3, 2, 1, 6, 5, 8, 7, 6, 5, 4, 3, 2, 1]"
    by code_simp
  have 1: ?len by (simp add: len)
  have 2: ?same
    using Vector_growth_preserves_content [OF 1, of big little] unfolding len enc .
  from 1 2 show ?thesis by (rule conjI)
qed

section \<open>ByteArray from a string longer than the array\<close>




section \<open>The hash padding of ByteArray\<close>

text \<open>
  C8. Each padding position is specified to be filled by updating the running hash with
  the byte written most recently and writing the low byte of the hash. \<open>fillTail\<close> updates the
  hash with \<open>m_bytes[filledBytes % N]\<close>, the byte at the position that is filled next,
  which still holds the zero of the initial \<open>memset\<close>. For \<open>N = 4\<close> and the input \<open>a\<close>
  the copy phase fills one byte and the terminator follows; the first padding byte is
  \<open>E4\<close> either way (the byte written most recently is the terminator), the second is \<open>6C\<close>
  in the code and \<open>00\<close> when the hash is updated with the \<open>E4\<close> just written.
\<close>

theorem fillTail_padding_at_a:
  "fillHead 4 (replicate 4 0) [0x61] = (1, [0x61, 0, 0, 0])
   \<and> ByteArray_of_string 4 [0x61] = [0x61, 0, 0xE4, 0x6C]
   \<and> snd (fillTail_loop 4 [0x61, 0, 0, 0] (computeHash [0x61, 0, 0, 0] HashInit 1) 2)
       = [0x61, 0, 0xE4, 0x6C]
   \<and> snd (fillTail_loop_as_specified 4 [0x61, 0, 0, 0] (computeHash [0x61, 0, 0, 0] HashInit 1) 2)
       = [0x61, 0, 0xE4, 0]"
  by code_simp

end
